theory Spec2Isabelle
  imports Complex_Main "HOL-Library.AList"
begin

section \<open>Errors\<close>

text \<open>
  What the modelled code throws: the error classes of exceptions.ts that it constructs, each
  with its message, and the \<open>TypeError\<close> that JavaScript raises when a property of
  \<open>undefined\<close> is read or written.
\<close>

datatype error =
    ConfigurationError string
  | PluginError string
  | ParameterError string
  | InternalError string
  | TypeError string

section \<open>Task results and the result cache (task-graph.ts)\<close>

text \<open>
  A \<open>TaskResult\<close> as the interface of task-graph.ts declares it. Dates are milliseconds
  (a natural number), an \<open>Error\<close> object is its message, \<open>params\<close> and \<open>output\<close> are opaque
  strings. A JavaScript object with string keys (\<open>{ [key: string]: TaskResult }\<close>) is an
  association list in insertion order: assigning to a key that exists replaces the value
  in place, assigning to a new key appends, \<open>delete\<close> removes (\<open>AList.update\<close>,
  \<open>AList.delete\<close>), and \<open>Object.values\<close> reads the values in that order.
\<close>

datatype TaskResult = TaskResult
  (r_baseKey: string)
  (r_key: string)
  (r_id: string)
  (r_params: string)
  (r_type: string)
  (r_description: string)
  (r_output: "string option")
  (r_dependencyResults: "(string \<times> TaskResult) list")
  (r_error: "string option")
  (r_startedAt: nat)
  (r_completedAt: nat)

definition MAX_CACHE_SIZE :: nat where
  "MAX_CACHE_SIZE = 1000"

definition CACHE_CLEANUP_RATIO :: rat where
  "CACHE_CLEANUP_RATIO = 8 / 10"

record ResultCache =
  cache :: "(string \<times> TaskResult) list"
  cache_length :: nat

definition ResultCache_new :: ResultCache where
  "ResultCache_new = \<lparr> cache = [], cache_length = 0 \<rparr>"

text \<open>
  \<open>cleanup\<close>: \<open>sortBy(Object.values(this.cache), "completedAt")\<close> is a stable ascending
  sort (\<open>sort_key\<close>), \<open>.slice(cleanupCount)\<close> drops the first \<open>cleanupCount\<close> elements of
  it, and every result that is left in the slice is deleted from the cache by its key.
\<close>

definition cleanupCount :: nat where
  "cleanupCount = nat \<lfloor>of_nat MAX_CACHE_SIZE * CACHE_CLEANUP_RATIO\<rfloor>"

definition expired :: "ResultCache \<Rightarrow> TaskResult list" where
  "expired c = drop cleanupCount (sort_key r_completedAt (map snd (cache c)))"

definition cleanup :: "ResultCache \<Rightarrow> ResultCache" where
  "cleanup c = c\<lparr> cache := fold (\<lambda>result al. AList.delete (r_key result) al) (expired c) (cache c) \<rparr>"

text \<open>\<open>put\<close>: the counter is incremented on every call (\<open>++this.length\<close>) and never reset.\<close>

definition put :: "ResultCache \<Rightarrow> TaskResult \<Rightarrow> ResultCache" where
  "put c result =
     (let c1 = c\<lparr> cache := AList.update (r_key result) result (cache c),
                  cache_length := cache_length c + 1 \<rparr>
      in if cache_length c1 \<ge> MAX_CACHE_SIZE then cleanup c1 else c1)"

text \<open>\<open>get\<close>: \<open>(r && r.key === key && !r.error) ? r : null\<close>.\<close>

definition get :: "ResultCache \<Rightarrow> string \<Rightarrow> TaskResult option" where
  "get c k =
     (case map_of (cache c) k of
        None \<Rightarrow> None
      | Some r \<Rightarrow> if r_key r = k \<and> r_error r = None then Some r else None)"

text \<open>\<open>pick\<close>: the cached results of the given keys, as an object keyed by them.\<close>

fun pick_loop :: "ResultCache \<Rightarrow> string list \<Rightarrow> (string \<times> TaskResult) list \<Rightarrow> (string \<times> TaskResult) list" where
  "pick_loop c [] results = results"
| "pick_loop c (k # ks) results =
     (case get c k of
        Some cachedResult \<Rightarrow> pick_loop c ks (AList.update k cachedResult results)
      | None \<Rightarrow> pick_loop c ks results)"

definition pick :: "ResultCache \<Rightarrow> string list \<Rightarrow> (string \<times> TaskResult) list" where
  "pick c keys = pick_loop c keys []"


section \<open>Tasks, task nodes and node maps (task-graph.ts, tasks/base.ts)\<close>

text \<open>
  A task is what the scheduler reads of a \<open>BaseTask\<close>: its type, the values of
  \<open>getBaseKey()\<close>, \<open>getKey()\<close> and \<open>getDescription()\<close>, its id, \<open>force\<close>,
  \<open>version.versionString\<close>, the optional \<open>concurrencyLimit\<close>, its params and the list
  that \<open>getDependencies()\<close> returns. What \<open>process()\<close> returns or throws is not part of
  the task: it is supplied when the promise settles.
\<close>

datatype BaseTask = BaseTask
  (t_type: string)
  (t_baseKey: string)
  (t_key: string)
  (t_id: string)
  (t_force: bool)
  (t_versionString: string)
  (t_concurrencyLimit: "nat option")
  (t_params: string)
  (t_description: string)
  (t_dependencies: "BaseTask list")

text \<open>
  The fields of a \<open>TaskNode\<close> that never change. The one mutable field, \<open>dependencies\<close>,
  is shared by every reference to the node object, so it lives in the graph state, under the
  node's key (\<open>dependencies\<close> of \<open>TaskGraph\<close> below). \<open>getIndexKey\<close> is not in the
  source files; the key of a node is its task's \<open>getKey()\<close>.
\<close>

record TaskNode =
  n_type :: string
  n_baseKey :: string
  n_key :: string
  n_id :: string
  n_task :: BaseTask
  n_parent :: "BaseTask option"

definition TaskNode_new :: "BaseTask \<Rightarrow> BaseTask option \<Rightarrow> TaskNode" where
  "TaskNode_new task parent =
     \<lparr> n_type = t_type task, n_baseKey = t_baseKey task, n_key = t_key task,
       n_id = t_id task, n_task = task, n_parent = parent \<rparr>"

text \<open>
  \<open>TaskNodeMap\<close>: a JavaScript \<open>Map\<close> (insertion order) and a counter kept beside it.
\<close>

record TaskNodeMap =
  nm_index :: "(string \<times> TaskNode) list"
  nm_length :: int

definition TaskNodeMap_new :: TaskNodeMap where
  "TaskNodeMap_new = \<lparr> nm_index = [], nm_length = 0 \<rparr>"

definition nm_getNode :: "TaskNodeMap \<Rightarrow> string \<Rightarrow> TaskNode option" where
  "nm_getNode m k = map_of (nm_index m) k"

definition nm_addNode :: "TaskNodeMap \<Rightarrow> TaskNode \<Rightarrow> TaskNodeMap" where
  "nm_addNode m node =
     (let indexKey = n_key node
      in if nm_getNode m indexKey = None
         then m\<lparr> nm_index := AList.update indexKey node (nm_index m), nm_length := nm_length m + 1 \<rparr>
         else m)"

definition nm_removeNode :: "TaskNodeMap \<Rightarrow> TaskNode \<Rightarrow> TaskNodeMap" where
  "nm_removeNode m node =
     (if map_of (nm_index m) (n_key node) \<noteq> None
      then m\<lparr> nm_index := AList.delete (n_key node) (nm_index m), nm_length := nm_length m - 1 \<rparr>
      else m)"

definition nm_setNodes :: "TaskNodeMap \<Rightarrow> TaskNode list \<Rightarrow> TaskNodeMap" where
  "nm_setNodes m nodes = fold (\<lambda>node m'. nm_addNode m' node) nodes m"

definition nm_getNodes :: "TaskNodeMap \<Rightarrow> TaskNode list" where
  "nm_getNodes m = map snd (nm_index m)"

definition nm_contains :: "TaskNodeMap \<Rightarrow> TaskNode \<Rightarrow> bool" where
  "nm_contains m node \<longleftrightarrow> map_of (nm_index m) (n_key node) \<noteq> None"

definition nm_clear :: "TaskNodeMap \<Rightarrow> TaskNodeMap" where
  "nm_clear m = m\<lparr> nm_index := [], nm_length := 0 \<rparr>"

section \<open>The task graph (task-graph.ts)\<close>

datatype Event =
    TaskPending nat string string
  | TaskProcessing nat string string
  | TaskComplete TaskResult
  | TaskError TaskResult
  | TaskGraphProcessing nat
  | TaskGraphComplete nat

text \<open>
  The state of a \<open>TaskGraph\<close>. Beside the fields of the class it holds
  \<^item> \<open>dependencies\<close>: the \<open>dependencies\<close> map of each node object, by node key (the field
    that \<open>clear\<close> and \<open>setDependencies\<close> write; \<open>getDependencies\<close> reads it);
  \<^item> \<open>events\<close>: what was emitted on \<open>garden.events\<close>, oldest first;
  \<^item> \<open>processing\<close>: the promises of \<open>node.task.process(...)\<close> that have not settled, each
    with the node and the result object that \<open>processTask\<close> built for it;
  \<^item> \<open>clock\<close>: the time of the latest step; \<open>new Date()\<close> in a step is the time \<open>now\<close> at
    which the step runs.
\<close>

record TaskGraph =
  roots :: TaskNodeMap
  index :: TaskNodeMap
  inProgress :: TaskNodeMap
  taskDependencyCache :: "string \<rightharpoonup> string list"
  resultCache :: ResultCache
  concurrencyLimit :: nat
  dependencies :: "string \<Rightarrow> TaskNodeMap"
  events :: "Event list"
  processing :: "(TaskNode \<times> TaskResult) list"
  clock :: nat

definition DEFAULT_MAX_CONCURRENCY :: nat where
  "DEFAULT_MAX_CONCURRENCY = 100"

definition TaskGraph_new :: "nat \<Rightarrow> TaskGraph" where
  "TaskGraph_new limit =
     \<lparr> roots = TaskNodeMap_new, index = TaskNodeMap_new, inProgress = TaskNodeMap_new,
       taskDependencyCache = Map.empty, resultCache = ResultCache_new,
       concurrencyLimit = limit, dependencies = (\<lambda>k. TaskNodeMap_new),
       events = [], processing = [], clock = 0 \<rparr>"

definition emit :: "TaskGraph \<Rightarrow> Event \<Rightarrow> TaskGraph" where
  "emit g e = g\<lparr> events := events g @ [e] \<rparr>"

definition getDependencies :: "TaskGraph \<Rightarrow> TaskNode \<Rightarrow> TaskNode list" where
  "getDependencies g node = nm_getNodes (dependencies g (n_key node))"

text \<open>\<open>node.clear()\<close> followed by \<open>node.setDependencies(nodes)\<close>.\<close>

definition setDependencies :: "TaskGraph \<Rightarrow> TaskNode \<Rightarrow> TaskNode list \<Rightarrow> TaskGraph" where
  "setDependencies g node nodes =
     g\<lparr> dependencies := (dependencies g)
          (n_key node := nm_setNodes (nm_clear (dependencies g (n_key node))) nodes) \<rparr>"

definition taskDeps :: "TaskGraph \<Rightarrow> TaskNode \<Rightarrow> string list" where
  "taskDeps g node = (case taskDependencyCache g (n_key node) of None \<Rightarrow> [] | Some s \<Rightarrow> s)"

definition rebuild :: "TaskGraph \<Rightarrow> TaskGraph" where
  "rebuild g =
     (let taskNodes = nm_getNodes (index g);
          g1 = fold (\<lambda>node g'.
                 setDependencies g' node
                   (filter (\<lambda>n. n_baseKey n \<in> set (taskDeps g' node)) taskNodes)) taskNodes g;
          newRootNodes = filter (\<lambda>n. length (getDependencies g1 n) = 0) taskNodes
      in g1\<lparr> roots := nm_setNodes (nm_clear (roots g1)) newRootNodes \<rparr>)"

text \<open>
  \<open>processTask\<close> up to the call of \<open>node.task.process\<close>: it builds the result object and
  starts the task. It emits no event.
\<close>

definition processTask :: "TaskGraph \<Rightarrow> TaskNode \<Rightarrow> nat \<Rightarrow> TaskGraph" where
  "processTask g node now =
     (let startedAt = now;
          dependencyKeys = map n_key (getDependencies g node);
          result = TaskResult (n_baseKey node) (n_key node) (n_id node) (t_params (n_task node))
                     (n_type node) (t_description (n_task node)) None
                     (pick (resultCache g) dependencyKeys) None startedAt startedAt
      in g\<lparr> processing := processing g @ [(node, result)] \<rparr>)"

text \<open>
  The \<open>for\<close> loop of \<open>loop\<close> over the roots. \<open>None\<close> for the batch is the \<open>return\<close>
  inside the loop, which leaves \<open>loop\<close> before \<open>batch.map\<close> is reached. A
  \<open>concurrencyLimit\<close> of 0 is falsy, as an undefined one.
\<close>

definition sameTypeParent :: "TaskNode \<Rightarrow> bool" where
  "sameTypeParent node \<longleftrightarrow> (case n_parent node of None \<Rightarrow> False | Some p \<Rightarrow> t_type p = n_type node)"

definition typeLimit :: "TaskNode \<Rightarrow> nat option" where
  "typeLimit node =
     (case t_concurrencyLimit (n_task node) of
        None \<Rightarrow> None
      | Some k \<Rightarrow> if k \<noteq> 0 \<and> \<not> sameTypeParent node then Some k else None)"

fun loop_roots :: "TaskGraph \<Rightarrow> TaskNode list \<Rightarrow> TaskNode list \<Rightarrow> TaskGraph \<times> TaskNode list option" where
  "loop_roots g [] batch = (g, Some batch)"
| "loop_roots g (node # rest) batch =
     (if nm_length (inProgress g) \<ge> int (concurrencyLimit g) then (g, None)
      else if nm_contains (inProgress g) node then loop_roots g rest batch
      else
        (case typeLimit node of
           None \<Rightarrow> loop_roots (g\<lparr> inProgress := nm_addNode (inProgress g) node \<rparr>) rest (batch @ [node])
         | Some k \<Rightarrow>
             (let inProgressByType = filter (\<lambda>n. n_type n = n_type node) (nm_getNodes (inProgress g))
              in if length inProgressByType \<ge> k then loop_roots g rest batch
                 else loop_roots (g\<lparr> inProgress := nm_addNode (inProgress g) node \<rparr>) rest (batch @ [node]))))"

definition loop :: "TaskGraph \<Rightarrow> nat \<Rightarrow> TaskGraph" where
  "loop g now =
     (if nm_length (index g) = 0 then emit g (TaskGraphComplete now)
      else
        (let g1 = emit g (TaskGraphProcessing now);
             g2 = rebuild g1
         in case loop_roots g2 (nm_getNodes (roots g2)) [] of
              (g3, None) \<Rightarrow> g3
            | (g3, Some batch) \<Rightarrow> fold (\<lambda>node g'. processTask g' node now) batch g3))"

definition remove :: "TaskGraph \<Rightarrow> TaskNode \<Rightarrow> TaskGraph" where
  "remove g node = g\<lparr> index := nm_removeNode (index g) node, inProgress := nm_removeNode (inProgress g) node \<rparr>"

definition completeTask :: "TaskGraph \<Rightarrow> TaskNode \<Rightarrow> error + TaskGraph" where
  "completeTask g node =
     (if length (getDependencies g node) > 0
      then Inl (InternalError (''Task '' @ n_key node @ '' still has unprocessed dependencies''))
      else Inr (remove g node))"

text \<open>
  \<open>getDependants\<close> calls itself on every dependant it finds, and nothing in the graph rules
  out a dependency cycle, so the recursion carries fuel: \<open>None\<close> is a recursion that did not
  come back within it.
\<close>

definition dependsOn :: "TaskGraph \<Rightarrow> TaskNode \<Rightarrow> TaskNode \<Rightarrow> bool" where
  "dependsOn g n node \<longleftrightarrow> (\<exists>d \<in> set (getDependencies g n). n_baseKey d = n_baseKey node)"

fun getDependants :: "nat \<Rightarrow> TaskGraph \<Rightarrow> TaskNode \<Rightarrow> TaskNode list option" where
  "getDependants 0 g node = None"
| "getDependants (Suc fuel) g node =
     (let dependants = filter (\<lambda>n. dependsOn g n node) (nm_getNodes (index g))
      in case those (map (getDependants fuel g) dependants) of
           None \<Rightarrow> None
         | Some dss \<Rightarrow> Some (dependants @ concat dss))"

definition cancelDependants :: "nat \<Rightarrow> TaskGraph \<Rightarrow> TaskNode \<Rightarrow> TaskGraph option" where
  "cancelDependants fuel g node =
     (case getDependants fuel g node of
        None \<Rightarrow> None
      | Some ds \<Rightarrow> Some (rebuild (fold (\<lambda>dependant g'. remove g' dependant) ds g)))"

text \<open>
  The handlers that \<open>processTask\<close> chains on the promise. \<open>settle\<close> is \<open>.finally\<close>: when
  \<open>completeTask\<close> throws, \<open>loop\<close> is not reached and the error leaves the handler.
\<close>

definition settle :: "TaskGraph \<Rightarrow> TaskNode \<Rightarrow> TaskResult \<Rightarrow> nat \<Rightarrow> TaskGraph \<times> error option" where
  "settle g node result now =
     (let g1 = g\<lparr> resultCache := put (resultCache g) result \<rparr>
      in case completeTask g1 node of
           Inl e \<Rightarrow> (g1, Some e)
         | Inr g2 \<Rightarrow> (loop g2 now, None))"

definition setOutput :: "TaskResult \<Rightarrow> string \<Rightarrow> nat \<Rightarrow> TaskResult" where
  "setOutput r out now =
     TaskResult (r_baseKey r) (r_key r) (r_id r) (r_params r) (r_type r) (r_description r)
       (Some out) (r_dependencyResults r) (r_error r) (r_startedAt r) now"

definition setError :: "TaskResult \<Rightarrow> string \<Rightarrow> nat \<Rightarrow> TaskResult" where
  "setError r err now =
     TaskResult (r_baseKey r) (r_key r) (r_id r) (r_params r) (r_type r) (r_description r)
       (r_output r) (r_dependencyResults r) (Some err) (r_startedAt r) now"

definition settled :: "TaskGraph \<Rightarrow> TaskNode \<Rightarrow> TaskResult \<Rightarrow> TaskGraph" where
  "settled g node result = g\<lparr> processing := remove1 (node, result) (processing g) \<rparr>"

definition process_resolved :: "TaskGraph \<Rightarrow> TaskNode \<Rightarrow> TaskResult \<Rightarrow> string \<Rightarrow> nat \<Rightarrow> TaskGraph \<times> error option" where
  "process_resolved g node result out now =
     (let result1 = setOutput result out now;
          g1 = emit (settled g node result) (TaskComplete result1)
      in settle g1 node result1 now)"

definition process_rejected :: "nat \<Rightarrow> TaskGraph \<Rightarrow> TaskNode \<Rightarrow> TaskResult \<Rightarrow> string \<Rightarrow> nat \<Rightarrow> (TaskGraph \<times> error option) option" where
  "process_rejected fuel g node result err now =
     (let result1 = setError result err now
      in case cancelDependants fuel (settled g node result) node of
           None \<Rightarrow> None
         | Some g1 \<Rightarrow> Some (settle (emit g1 (TaskError result1)) node result1 now))"


text \<open>
  Adding a task (\<open>addTaskInternal\<close>, \<open>getNode\<close>, the \<open>addNode\<close> that takes a task,
  \<open>addNodeWithDependencies\<close>). \<open>n.getBaseKey()\<close> and \<open>n.getKey()\<close> on a node are its
  \<open>baseKey\<close> and \<open>key\<close>. \<open>resultCache.get\<close> takes one argument, so the version string
  passed second is ignored. A node object made by \<open>new TaskNode\<close> has an empty
  \<open>dependencies\<close> map; \<open>index_addNode\<close> is \<open>this.index.addNode(node)\<close> for such a node.
  \<open>addNodeWithDependencies\<close> recurses into the dependencies of \<open>node.task\<close>, which is the
  task of a node that is already indexed when \<open>getNode\<close> finds one, so the recursion carries
  fuel.
\<close>

definition existingNode :: "TaskGraph \<Rightarrow> string \<Rightarrow> string \<Rightarrow> TaskNode option" where
  "existingNode g baseKey key =
     (case rev (filter (\<lambda>n. n_baseKey n = baseKey \<and> n_key n \<noteq> key) (nm_getNodes (index g))) of
        [] \<Rightarrow> None
      | existing # _ \<Rightarrow> Some existing)"

definition index_addNode :: "TaskGraph \<Rightarrow> TaskNode \<Rightarrow> TaskGraph" where
  "index_addNode g node =
     (if nm_getNode (index g) (n_key node) = None
      then g\<lparr> index := nm_addNode (index g) node,
              dependencies := (dependencies g)(n_key node := TaskNodeMap_new) \<rparr>
      else g)"

definition getNode :: "TaskGraph \<Rightarrow> BaseTask \<Rightarrow> (TaskNode \<times> bool) option" where
  "getNode g task =
     (case existingNode g (t_baseKey task) (t_key task) of
        Some existing \<Rightarrow> Some (existing, False)
      | None \<Rightarrow>
          (let cachedResultExists = (get (resultCache g) (t_baseKey task) \<noteq> None)
           in if cachedResultExists \<and> \<not> t_force task then None
              else Some (TaskNode_new task None, True)))"

definition addNode_task :: "TaskGraph \<Rightarrow> BaseTask \<Rightarrow> TaskGraph \<times> TaskNode option" where
  "addNode_task g task =
     (case getNode g task of
        None \<Rightarrow> (g, None)
      | Some (node, isNew) \<Rightarrow>
          ((if isNew then index_addNode g node else g\<lparr> index := nm_addNode (index g) node \<rparr>), Some node))"

fun addNodeWithDependencies :: "nat \<Rightarrow> TaskGraph \<Rightarrow> BaseTask \<Rightarrow> TaskGraph option" where
  "addNodeWithDependencies 0 g task = None"
| "addNodeWithDependencies (Suc fuel) g task =
     (case addNode_task g task of
        (g1, None) \<Rightarrow> Some g1
      | (g1, Some node) \<Rightarrow>
          (let depTasks = t_dependencies (n_task node);
               g2 = g1\<lparr> taskDependencyCache :=
                          (taskDependencyCache g1)(n_key node \<mapsto> map t_baseKey depTasks) \<rparr>
           in fold (\<lambda>dep r. case r of None \<Rightarrow> None
                                    | Some g' \<Rightarrow> addNodeWithDependencies fuel g' dep)
                depTasks (Some g2)))"

definition addTaskInternal :: "nat \<Rightarrow> TaskGraph \<Rightarrow> BaseTask \<Rightarrow> nat \<Rightarrow> TaskGraph option" where
  "addTaskInternal fuel g task now =
     (case addNodeWithDependencies fuel
             (emit g (TaskPending now (t_key task) (t_versionString task))) task of
        None \<Rightarrow> None
      | Some g1 \<Rightarrow> Some (rebuild g1))"

text \<open>
  \<open>process(tasks, parent)\<close>. It makes a node with the parent for every task,
  \<open>nodes[task.getKey()] = new TaskNode(task, parent)\<close>, and calls \<open>this.addNode(node)\<close> on each
  value of \<open>nodes\<close>. The class declares \<open>addNode\<close> twice, and the later declaration, the one
  that takes a task, replaces the earlier one (lines 209-265), which is never called. So
  \<open>getNode\<close> runs with the node in the place of the task: it looks for an indexed node of the same
  base key and another key, and when there is none it reads \<open>task.version.versionString\<close>, which
  throws a \<open>TypeError\<close> because a node has no \<open>version\<close>. The error leaves the loop over the
  nodes. When an indexed node is found, \<open>this.index.addNode\<close> is called on that node. The node
  that \<open>process\<close> made, the only one with a parent, is never indexed.
\<close>

definition process_nodes :: "BaseTask list \<Rightarrow> BaseTask option \<Rightarrow> TaskNode list" where
  "process_nodes tasks parent =
     map snd (fold (\<lambda>task nodes. AList.update (t_key task) (TaskNode_new task parent) nodes) tasks [])"

fun addNodes :: "TaskGraph \<Rightarrow> TaskNode list \<Rightarrow> TaskGraph \<times> error option" where
  "addNodes g [] = (g, None)"
| "addNodes g (node # rest) =
     (case existingNode g (n_baseKey node) (n_key node) of
        None \<Rightarrow> (g, Some (TypeError (''Cannot read property '' @ [CHR 0x27] @ ''versionString'' @
                                     [CHR 0x27] @ '' of undefined'')))
      | Some existing \<Rightarrow> addNodes (g\<lparr> index := nm_addNode (index g) existing \<rparr>) rest)"

definition process :: "TaskGraph \<Rightarrow> BaseTask list \<Rightarrow> BaseTask option \<Rightarrow> TaskGraph \<times> error option" where
  "process g tasks parent = addNodes g (process_nodes tasks parent)"

section \<open>Configuration contexts and template strings (config-context.ts, template-string.ts)\<close>

text \<open>
  The values a context holds: \<open>undefined\<close>, a primitive, a lazy callable (a function that
  is called with no argument and returns a value), a \<open>ConfigContext\<close> instance, a \<open>Map\<close>
  or any other object. Instances are heap objects: a value refers to one by its address,
  and the heap gives each its \<open>_rootContext\<close>, its \<open>_resolvedValues\<close> and its other
  properties. Numbers are integers. Reading a property of a primitive or of a function, and
  the properties an object inherits from its prototype, are not modelled: they read as
  \<open>undefined\<close>.
\<close>

datatype Primitive = PString string | PNumber int | PBoolean bool

datatype Value =
    VUndefined
  | VPrimitive Primitive
  | VFunction Value
  | VContext nat
  | VMap "(string \<times> Value) list"
  | VObject "(string \<times> Value) list"

record ConfigContext =
  rootContext :: nat
  resolvedValues :: "(string \<times> Primitive) list"
  properties :: "(string \<times> Value) list"

text \<open>
  The heap also counts the lazy callables invoked (\<open>invoked\<close>) and the calls of
  \<open>resolveTemplateString\<close> (\<open>templated\<close>).
\<close>

record Heap =
  contexts :: "nat \<Rightarrow> ConfigContext"
  invoked :: nat
  templated :: nat

text \<open>
  The grammar of template strings (template-string-parser.pegjs) is not in the source
  files, so the parser is a parameter: it turns a string into its parts, a literal, a key to
  look up (\<open>getKey\<close>) or a nested template whose parts are resolved and joined into a key
  (\<open>resolve\<close>).
\<close>

datatype TemplatePart = Literal string | GetKey "string list" | Nested "TemplatePart list"

type_synonym Parser = "string \<Rightarrow> TemplatePart list"

fun truthy :: "Primitive \<Rightarrow> bool" where
  "truthy (PString s) = (s \<noteq> [])"
| "truthy (PNumber n) = (n \<noteq> 0)"
| "truthy (PBoolean b) = b"

fun join :: "string \<Rightarrow> string list \<Rightarrow> string" where
  "join sep [] = []"
| "join sep [x] = x"
| "join sep (x # y # ys) = x @ sep @ join sep (y # ys)"

fun showNat :: "nat \<Rightarrow> string" where
  "showNat n = (if n < 10 then [''0123456789'' ! n] else showNat (n div 10) @ [''0123456789'' ! (n mod 10)])"

definition toString :: "Primitive \<Rightarrow> string" where
  "toString p =
     (case p of
        PString s \<Rightarrow> s
      | PNumber n \<Rightarrow> (if n < 0 then ''-'' @ showNat (nat (- n)) else showNat (nat n))
      | PBoolean b \<Rightarrow> (if b then ''true'' else ''false''))"

definition lookup :: "(string \<times> Value) list \<Rightarrow> string \<Rightarrow> Value" where
  "lookup props k = (case map_of props k of None \<Rightarrow> VUndefined | Some v \<Rightarrow> v)"

text \<open>\<open>value instanceof Map ? value.get(nextKey) : value[nextKey]\<close>\<close>

definition getProp :: "Heap \<Rightarrow> Value \<Rightarrow> string \<Rightarrow> Value" where
  "getProp h value nextKey =
     (case value of
        VMap m \<Rightarrow> lookup m nextKey
      | VObject props \<Rightarrow> lookup props nextKey
      | VContext c \<Rightarrow> lookup (properties (contexts h c)) nextKey
      | _ \<Rightarrow> VUndefined)"

definition startsWithUnderscore :: "string \<Rightarrow> bool" where
  "startsWithUnderscore k = (case k of [] \<Rightarrow> False | c # _ \<Rightarrow> c = CHR ''_'')"

text \<open>\<open>const resolved = this._resolvedValues[path]; if (resolved) { return resolved }\<close>\<close>

definition resolved :: "Heap \<Rightarrow> nat \<Rightarrow> string \<Rightarrow> Primitive option" where
  "resolved h this path =
     (case map_of (resolvedValues (contexts h this)) path of
        Some v \<Rightarrow> if truthy v then Some v else None
      | None \<Rightarrow> None)"

definition setResolved :: "Heap \<Rightarrow> nat \<Rightarrow> string \<Rightarrow> Primitive \<Rightarrow> Heap" where
  "setResolved h this path v =
     h\<lparr> contexts := (contexts h)
          (this := (contexts h this)\<lparr> resolvedValues := AList.update path v (resolvedValues (contexts h this)) \<rparr>) \<rparr>"

definition circular :: "string \<Rightarrow> string list \<Rightarrow> error" where
  "circular path stack =
     ConfigurationError (''Circular reference detected when resolving key '' @ path @
                         '' ('' @ join '' -> '' stack @ '')'')"

text \<open>
  The end of \<open>resolve\<close>, after the walk along the key: not found, not a primitive, or the
  value, which is then stored in \<open>_resolvedValues\<close>.
\<close>

definition finish :: "nat \<Rightarrow> string \<Rightarrow> (error + Value) option \<times> Heap \<Rightarrow> (error + Primitive) option \<times> Heap" where
  "finish this path r =
     (case r of
        (None, h) \<Rightarrow> (None, h)
      | (Some (Inl e), h) \<Rightarrow> (Some (Inl e), h)
      | (Some (Inr VUndefined), h) \<Rightarrow> (Some (Inl (ConfigurationError (''Could not find key: '' @ path))), h)
      | (Some (Inr (VPrimitive p)), h) \<Rightarrow> (Some (Inr p), setResolved h this path p)
      | (Some (Inr _), h) \<Rightarrow>
          (Some (Inl (ConfigurationError (''Config value at '' @ path @
             '' exists but is not a primitive (string, number or boolean)''))), h))"

definition call :: "Heap \<Rightarrow> Value \<Rightarrow> Value \<times> Heap" where
  "call h value = (case value of VFunction r \<Rightarrow> (r, h\<lparr> invoked := invoked h + 1 \<rparr>) | _ \<Rightarrow> (value, h))"


text \<open>
  \<open>resolve\<close>, its \<open>for\<close> loop over the key (\<open>resolve_keys\<close>, with the part of the key
  already walked), \<open>resolveTemplateString\<close> and the resolution of the parts the parser
  returns (\<open>resolve_parts\<close>, one after the other). The functions call each other without a
  bound that the code checks, so they carry fuel, one unit for each call and each turn of a
  loop; \<open>None\<close> is a call that did not return within it. \<open>andThen\<close> is \<open>await\<close>: an error
  or a call that does not return ends the caller too. \<open>kind\<close> names the branch the loop
  body takes for a value.

  \<open>resolve\<close> hands \<open>resolveTemplateString\<close> its stack as third argument. There it is
  named \<open>opts\<close>, and \<open>getKey\<close> calls \<open>context.resolve({ key, nodePath: [], opts: ... })\<close>;
  \<open>resolve\<close> reads \<open>key\<close>, \<open>nodePath\<close> and \<open>stack\<close> of its argument, so the stack of that
  call is undefined and it starts from the empty one. The parts of one template string are
  resolved one after the other.
\<close>

definition andThen :: "(error + 'a) option \<times> Heap \<Rightarrow> ('a \<Rightarrow> Heap \<Rightarrow> (error + 'b) option \<times> Heap) \<Rightarrow> (error + 'b) option \<times> Heap" where
  "andThen r k =
     (case r of
        (None, h) \<Rightarrow> (None, h)
      | (Some (Inl e), h) \<Rightarrow> (Some (Inl e), h)
      | (Some (Inr a), h) \<Rightarrow> k a h)"

datatype Kind = IsContext nat | IsString string | IsUndefined | IsOther

definition kind :: "Value \<Rightarrow> Kind" where
  "kind v = (case v of VContext c \<Rightarrow> IsContext c | VPrimitive (PString s) \<Rightarrow> IsString s | VUndefined \<Rightarrow> IsUndefined | _ \<Rightarrow> IsOther)"

function (sequential) resolve :: "nat \<Rightarrow> Parser \<Rightarrow> Heap \<Rightarrow> nat \<Rightarrow> string list \<Rightarrow> string list \<Rightarrow> string list \<Rightarrow> (error + Primitive) option \<times> Heap"
  and resolve_keys :: "nat \<Rightarrow> Parser \<Rightarrow> Heap \<Rightarrow> nat \<Rightarrow> Value \<Rightarrow> string list \<Rightarrow> string list \<Rightarrow> string list \<Rightarrow> string list \<Rightarrow> (error + Value) option \<times> Heap"
  and resolveTemplateString :: "nat \<Rightarrow> Parser \<Rightarrow> Heap \<Rightarrow> string \<Rightarrow> nat \<Rightarrow> string list \<Rightarrow> (error + string) option \<times> Heap"
  and resolve_parts :: "nat \<Rightarrow> Parser \<Rightarrow> Heap \<Rightarrow> TemplatePart list \<Rightarrow> nat \<Rightarrow> (error + string list) option \<times> Heap"
where
  "resolve 0 P h this key nodePath stack = (None, h)"
| "resolve (Suc fuel) P h this key nodePath stack =
     (let path = join ''.'' key;
          fullPath = join ''.'' (nodePath @ key)
      in case resolved h this path of
           Some v \<Rightarrow> (Some (Inr v), h)
         | None \<Rightarrow>
             if fullPath \<in> set stack then (Some (Inl (circular path stack)), h)
             else finish this path (resolve_keys fuel P h this (VContext this) [] key nodePath stack))"
| "resolve_keys 0 P h this value done key nodePath stack = (None, h)"
| "resolve_keys (Suc fuel) P h this value done [] nodePath stack = (Some (Inr value), h)"
| "resolve_keys (Suc fuel) P h this value done (nextKey # remainder) nodePath stack =
     (let lookupPath = done @ [nextKey];
          nestedNodePath = nodePath @ lookupPath;
          stackEntry = join ''.'' nestedNodePath;
          called = call h (if startsWithUnderscore nextKey then VUndefined else getProp h value nextKey);
          h1 = snd called
      in case kind (fst called) of
           IsContext c \<Rightarrow>
             andThen (resolve fuel P h1 c remainder nestedNodePath (stack @ [stackEntry]))
               (\<lambda>p h2. (Some (Inr (VPrimitive p)), h2))
         | IsString s \<Rightarrow>
             andThen (resolveTemplateString fuel P h1 s (rootContext (contexts h1 this)) (stack @ [stackEntry]))
               (\<lambda>s' h2. resolve_keys fuel P h2 this (VPrimitive (PString s')) lookupPath remainder nodePath
                    (stack @ [stackEntry]))
         | IsUndefined \<Rightarrow> (Some (Inr VUndefined), h1)
         | IsOther \<Rightarrow> resolve_keys fuel P h1 this (fst called) lookupPath remainder nodePath stack)"
| "resolveTemplateString 0 P h string context opts = (None, h)"
| "resolveTemplateString (Suc fuel) P h string context opts =
     andThen (resolve_parts fuel P (h\<lparr> templated := templated h + 1 \<rparr>) (P string) context)
       (\<lambda>parts h1. (Some (Inr (concat parts)), h1))"
| "resolve_parts 0 P h parts context = (None, h)"
| "resolve_parts (Suc fuel) P h [] context = (Some (Inr []), h)"
| "resolve_parts (Suc fuel) P h (part # parts) context =
     andThen
       (case part of
          Literal s \<Rightarrow> (Some (Inr s), h)
        | GetKey key \<Rightarrow>
            andThen (resolve fuel P h context key [] []) (\<lambda>v h1. (Some (Inr (toString v)), h1))
        | Nested ps \<Rightarrow>
            andThen (resolve_parts fuel P h ps context)
              (\<lambda>ss h1. resolveTemplateString fuel P h1 (''${'' @ concat ss @ ''}'') context []))
       (\<lambda>s h1. andThen (resolve_parts fuel P h1 parts context) (\<lambda>ss h2. (Some (Inr (s # ss)), h2)))"

  by pat_completeness auto

termination
  by (relation "measure (\<lambda>x. case x of
        Inl (Inl a) \<Rightarrow> fst a | Inl (Inr b) \<Rightarrow> fst b
      | Inr (Inl c) \<Rightarrow> fst c | Inr (Inr d) \<Rightarrow> fst d)") simp_all


section \<open>Action handlers (garden.ts)\<close>

text \<open>
  A registered handler is the wrapper that \<open>addActionHandler\<close> builds: the plugin's handler
  (opaque, a name here) tagged with \<open>actionType\<close> and \<open>pluginName\<close>.
  \<open>this.actionHandlers\<close> is an object of objects: for each action type the handlers by
  plugin name, in the order in which the names were first assigned. Plugin names are
  identifiers that are not all digits (\<open>identifierRegex\<close>), so \<open>Object.values\<close> keeps that
  order. \<open>getPlugin\<close> is \<open>async\<close> and is not awaited by \<open>addActionHandler\<close> and
  \<open>filterActionHandlers\<close>, so a plugin that is not loaded throws nothing there.
\<close>

record Handler =
  h_actionType :: string
  h_pluginName :: string
  h_handler :: string

record Garden =
  actionHandlers :: "string \<rightharpoonup> (string \<times> Handler) list"
  environmentName :: string

definition defaultProvider_name :: string where
  "defaultProvider_name = ''_default''"

text \<open>The constructor: \<open>fromPairs(pluginActionNames.map(n => [n, {}]))\<close>.\<close>

definition Garden_new :: "string list \<Rightarrow> string \<Rightarrow> Garden" where
  "Garden_new pluginActionNames env =
     \<lparr> actionHandlers = map_of (map (\<lambda>n. (n, [])) pluginActionNames), environmentName = env \<rparr>"

definition addActionHandler :: "Garden \<Rightarrow> string \<Rightarrow> string \<Rightarrow> string \<Rightarrow> error + Garden" where
  "addActionHandler g pluginName actionType handler =
     (let wrapped = \<lparr> h_actionType = actionType, h_pluginName = pluginName, h_handler = handler \<rparr>
      in case actionHandlers g actionType of
           None \<Rightarrow> Inl (TypeError (''Cannot set property '' @ pluginName @ '' of undefined''))
         | Some handlers \<Rightarrow>
             Inr (g\<lparr> actionHandlers := (actionHandlers g)(actionType \<mapsto> AList.update pluginName wrapped handlers) \<rparr>))"

text \<open>\<open>!pluginName\<close> holds for an omitted name and for the empty string.\<close>

definition filterActionHandlers :: "(string \<times> Handler) list option \<Rightarrow> string option \<Rightarrow> (string \<times> Handler) list" where
  "filterActionHandlers handlers pluginName =
     (let handlers1 = (case handlers of None \<Rightarrow> [] | Some hs \<Rightarrow> hs)
      in case pluginName of
           None \<Rightarrow> handlers1
         | Some p \<Rightarrow> if p = [] then handlers1 else filter (\<lambda>kh. h_pluginName (snd kh) = p) handlers1)"

definition getActionHandlers :: "Garden \<Rightarrow> string \<Rightarrow> string option \<Rightarrow> (string \<times> Handler) list" where
  "getActionHandlers g actionType pluginName = filterActionHandlers (actionHandlers g actionType) pluginName"

definition getActionHandler :: "Garden \<Rightarrow> string \<Rightarrow> string option \<Rightarrow> Handler option \<Rightarrow> error + Handler" where
  "getActionHandler g actionType pluginName defaultHandler =
     (let handlers = map snd (getActionHandlers g actionType pluginName)
      in if length handlers \<noteq> 0 then Inr (handlers ! (length handlers - 1))
         else
           (case defaultHandler of
              Some d \<Rightarrow> Inr (d\<lparr> h_pluginName := defaultProvider_name \<rparr>)
            | None \<Rightarrow>
                (case (case pluginName of None \<Rightarrow> None | Some p \<Rightarrow> if p = [] then None else Some p) of
                   Some p \<Rightarrow>
                     Inl (PluginError (''Plugin '' @ [CHR 0x27] @ p @ [CHR 0x27] @ '' does not have a '' @
                                       [CHR 0x27] @ actionType @ [CHR 0x27] @ '' handler.''))
                 | None \<Rightarrow>
                     Inl (ParameterError (''No '' @ [CHR 0x27] @ actionType @ [CHR 0x27] @
                            '' handler configured in environment '' @ [CHR 0x27] @ environmentName g @
                            [CHR 0x27] @ ''. Are you missing a provider configuration?'')))))"

section \<open>The configuration graph (config-graph.ts)\<close>

text \<open>
  Of a module the constructor reads the name, the plugin, the build dependencies and the
  service, task and test configs, each with a name and the names it depends on.
  \<open>getModuleKey\<close>, \<open>serviceFromConfig(module, config)\<close> and \<open>taskFromConfig\<close> are not in
  the source files: \<open>getModuleKey\<close> is a parameter, and of the service or task that the
  other two build only \<open>.module\<close> is read, so the maps hold the module. The nodes refer to
  each other by node key.

  The maps are plain objects (\<open>{}\<close>), so reading \<open>map[name]\<close> finds the value stored under
  \<open>name\<close>, or else the property of that name that every object inherits from
  \<open>Object.prototype\<close>, or else \<open>undefined\<close>. An inherited property is a function (for
  \<open>__proto__\<close> the prototype object): it is truthy, and its \<open>.module\<close> is \<open>undefined\<close>.
  Assigning to \<open>map[name]\<close> stores the value under the name, except that assigning to
  \<open>__proto__\<close> stores nothing (it sets the prototype, which is not part of the state here;
  of the maps it is only \<open>moduleMap\<close>, which the constructor never reads, that can be
  assigned to under that name). A node key has a dot in it, so \<open>this.index[key]\<close> finds no
  inherited property.
\<close>

definition objectPrototype :: "string list" where
  "objectPrototype =
     [''constructor'', ''__defineGetter__'', ''__defineSetter__'', ''hasOwnProperty'',
      ''__lookupGetter__'', ''__lookupSetter__'', ''isPrototypeOf'', ''propertyIsEnumerable'',
      ''toString'', ''valueOf'', ''__proto__'', ''toLocaleString'']"

datatype 'a Prop = Own 'a | Inherited | Undefined

definition readProp :: "(string \<times> 'a) list \<Rightarrow> string \<Rightarrow> 'a Prop" where
  "readProp obj name =
     (case map_of obj name of
        Some v \<Rightarrow> Own v
      | None \<Rightarrow> if name \<in> set objectPrototype then Inherited else Undefined)"

definition writeProp :: "(string \<times> 'a) list \<Rightarrow> string \<Rightarrow> 'a \<Rightarrow> (string \<times> 'a) list" where
  "writeProp obj name v = (if name = ''__proto__'' then obj else AList.update name v obj)"

text \<open>
  The two \<open>TypeError\<close>s of the constructor: \<open>this.taskMap[depName].module\<close> of a name
  that is not there, and \<open>module.name\<close> of the \<open>.module\<close> of an inherited property, which
  is \<open>undefined\<close> (in \<open>keyForModule\<close> and in the messages of the \<open>ConfigurationError\<close>s).
\<close>

definition undefinedModule :: error where
  "undefinedModule = TypeError (''Cannot read property '' @ [CHR 0x27] @ ''module'' @ [CHR 0x27] @ '' of undefined'')"

definition undefinedName :: error where
  "undefinedName = TypeError (''Cannot read property '' @ [CHR 0x27] @ ''name'' @ [CHR 0x27] @ '' of undefined'')"

record BuildDependencyConfig =
  bd_name :: string
  bd_plugin :: "string option"

record DependencyConfig =
  dc_name :: string
  dc_dependencies :: "string list"

record Module =
  m_name :: string
  m_plugin :: "string option"
  m_buildDependencies :: "BuildDependencyConfig list"
  m_serviceConfigs :: "DependencyConfig list"
  m_taskConfigs :: "DependencyConfig list"
  m_testConfigs :: "DependencyConfig list"

record ConfigGraphNode =
  cn_type :: string
  cn_name :: string
  cn_moduleName :: string
  cn_dependencies :: "string list"
  cn_dependants :: "string list"

record ConfigGraph =
  cg_index :: "(string \<times> ConfigGraphNode) list"
  moduleMap :: "(string \<times> Module) list"
  serviceMap :: "(string \<times> Module) list"
  taskMap :: "(string \<times> Module) list"
  testConfigMap :: "(string \<times> DependencyConfig) list"
  testConfigModuleMap :: "(string \<times> Module) list"

type_synonym ModuleKey = "string \<Rightarrow> string option \<Rightarrow> string"

definition nodeKey :: "string \<Rightarrow> string \<Rightarrow> string" where
  "nodeKey type name = type @ ''.'' @ name"

definition keyForModule :: "ModuleKey \<Rightarrow> Module \<Rightarrow> string" where
  "keyForModule K modul = K (m_name modul) (m_plugin modul)"

definition cg_getNode :: "ConfigGraph \<Rightarrow> string \<Rightarrow> string \<Rightarrow> string \<Rightarrow> ConfigGraph \<times> ConfigGraphNode" where
  "cg_getNode cg type name moduleName =
     (let key = nodeKey type name
      in case map_of (cg_index cg) key of
           Some existing \<Rightarrow> (cg, existing)
         | None \<Rightarrow>
             (let newNode = \<lparr> cn_type = type, cn_name = name, cn_moduleName = moduleName,
                              cn_dependencies = [], cn_dependants = [] \<rparr>
              in (cg\<lparr> cg_index := AList.update key newNode (cg_index cg) \<rparr>, newNode)))"

definition addDependency :: "ConfigGraphNode \<Rightarrow> string \<Rightarrow> ConfigGraphNode" where
  "addDependency n key = (if key \<in> set (cn_dependencies n) then n else n\<lparr> cn_dependencies := cn_dependencies n @ [key] \<rparr>)"

definition cn_addDependant :: "ConfigGraphNode \<Rightarrow> string \<Rightarrow> ConfigGraphNode" where
  "cn_addDependant n key = (if key \<in> set (cn_dependants n) then n else n\<lparr> cn_dependants := cn_dependants n @ [key] \<rparr>)"

definition addRelation :: "ConfigGraph \<Rightarrow> ConfigGraphNode \<Rightarrow> string \<Rightarrow> string \<Rightarrow> string \<Rightarrow> ConfigGraph" where
  "addRelation cg dependant dependencyType dependencyName dependencyModuleName =
     (let (cg1, dependency) = cg_getNode cg dependencyType dependencyName dependencyModuleName;
          dependantKey = nodeKey (cn_type dependant) (cn_name dependant);
          dependencyKey = nodeKey (cn_type dependency) (cn_name dependency);
          cg2 = cg1\<lparr> cg_index := map (\<lambda>(k, n). if k = dependantKey then (k, addDependency n dependencyKey) else (k, n)) (cg_index cg1) \<rparr>
      in cg2\<lparr> cg_index := map (\<lambda>(k, n). if k = dependencyKey then (k, cn_addDependant n dependantKey) else (k, n)) (cg_index cg2) \<rparr>)"

text \<open>
  The loop over the declared dependency names, the same in \<open>addService\<close>, \<open>addTask\<close> and
  \<open>addTest\<close>: a name for which \<open>this.serviceMap[depName]\<close> is falsy is looked up in
  \<open>taskMap\<close>, and \<open>.module\<close> is read of what is found there. \<open>keyForModule\<close> reads
  \<open>module.name\<close> before \<open>addRelation\<close> is called.
\<close>

fun addDependencies :: "ModuleKey \<Rightarrow> ConfigGraph \<Rightarrow> ConfigGraphNode \<Rightarrow> string list \<Rightarrow> error + ConfigGraph" where
  "addDependencies K cg node [] = Inr cg"
| "addDependencies K cg node (depName # rest) =
     (case readProp (serviceMap cg) depName of
        Own m \<Rightarrow> addDependencies K (addRelation cg node ''service'' depName (keyForModule K m)) node rest
      | Inherited \<Rightarrow> Inl undefinedName
      | Undefined \<Rightarrow>
          (case readProp (taskMap cg) depName of
             Own m \<Rightarrow> addDependencies K (addRelation cg node ''task'' depName (keyForModule K m)) node rest
           | Inherited \<Rightarrow> Inl undefinedName
           | Undefined \<Rightarrow> Inl undefinedModule))"

text \<open>
  \<open>addService\<close> and \<open>addTask\<close>. When \<open>this.serviceMap[name]\<close> is an inherited property,
  the message of the \<open>ConfigurationError\<close> reads \<open>this.serviceMap[name].module.name\<close>, which
  throws the \<open>TypeError\<close> before the error is constructed.
\<close>

definition addService :: "ModuleKey \<Rightarrow> ConfigGraph \<Rightarrow> Module \<Rightarrow> string \<Rightarrow> DependencyConfig \<Rightarrow> error + ConfigGraph" where
  "addService K cg modul moduleKey serviceConfig =
     (let name = dc_name serviceConfig
      in case readProp (serviceMap cg) name of
           Own other \<Rightarrow>
             Inl (ConfigurationError (''Service names must be unique - '' @ name @
                    '' is declared multiple times (in '' @ [CHR 0x27] @ m_name other @ [CHR 0x27] @
                    '' and '' @ [CHR 0x27] @ m_name modul @ [CHR 0x27] @ '')''))
         | Inherited \<Rightarrow> Inl undefinedName
         | Undefined \<Rightarrow>
             (let cg1 = cg\<lparr> serviceMap := writeProp (serviceMap cg) name modul \<rparr>;
                  (cg2, serviceNode) = cg_getNode cg1 ''service'' name moduleKey;
                  cg3 = addRelation cg2 serviceNode ''build'' moduleKey moduleKey
              in addDependencies K cg3 serviceNode (dc_dependencies serviceConfig)))"

definition addTask :: "ModuleKey \<Rightarrow> ConfigGraph \<Rightarrow> Module \<Rightarrow> string \<Rightarrow> DependencyConfig \<Rightarrow> error + ConfigGraph" where
  "addTask K cg modul moduleKey taskConfig =
     (let taskName = dc_name taskConfig
      in case readProp (serviceMap cg) taskName of
           Own other \<Rightarrow>
             Inl (ConfigurationError (''Service and task names must be mutually unique - the task name '' @
                    taskName @ '' (declared in '' @ [CHR 0x27] @ m_name modul @ [CHR 0x27] @
                    '') is also declared as a service name in '' @ [CHR 0x27] @ m_name other @ [CHR 0x27]))
         | Inherited \<Rightarrow> Inl undefinedName
         | Undefined \<Rightarrow>
             (case readProp (taskMap cg) taskName of
                Own other \<Rightarrow>
                  Inl (ConfigurationError (''Task names must be unique - the task name '' @ taskName @
                         '' is declared multiple times (in '' @ [CHR 0x27] @ m_name other @ [CHR 0x27] @
                         '' and '' @ [CHR 0x27] @ m_name modul @ [CHR 0x27] @ '')''))
              | Inherited \<Rightarrow> Inl undefinedName
              | Undefined \<Rightarrow>
                  (let cg1 = cg\<lparr> taskMap := writeProp (taskMap cg) taskName modul \<rparr>;
                       (cg2, taskNode) = cg_getNode cg1 ''task'' taskName moduleKey;
                       cg3 = addRelation cg2 taskNode ''build'' moduleKey moduleKey
                   in addDependencies K cg3 taskNode (dc_dependencies taskConfig))))"

definition addTest :: "ModuleKey \<Rightarrow> ConfigGraph \<Rightarrow> Module \<Rightarrow> string \<Rightarrow> DependencyConfig \<Rightarrow> error + ConfigGraph" where
  "addTest K cg modul moduleKey testConfig =
     (let testConfigName = m_name modul @ ''.'' @ dc_name testConfig;
          cg1 = cg\<lparr> testConfigMap := writeProp (testConfigMap cg) testConfigName testConfig,
                     testConfigModuleMap := writeProp (testConfigModuleMap cg) testConfigName modul \<rparr>;
          (cg2, testNode) = cg_getNode cg1 ''test'' testConfigName moduleKey;
          cg3 = addRelation cg2 testNode ''build'' moduleKey moduleKey
      in addDependencies K cg3 testNode (dc_dependencies testConfig))"

text \<open>\<open>configs.map(config => this.add...(module, moduleKey, config))\<close>: the first throw ends it.\<close>

fun addAll :: "(ConfigGraph \<Rightarrow> 'a \<Rightarrow> error + ConfigGraph) \<Rightarrow> ConfigGraph \<Rightarrow> 'a list \<Rightarrow> error + ConfigGraph" where
  "addAll f cg [] = Inr cg"
| "addAll f cg (x # xs) = (case f cg x of Inl e \<Rightarrow> Inl e | Inr cg1 \<Rightarrow> addAll f cg1 xs)"

definition addModule :: "ModuleKey \<Rightarrow> ConfigGraph \<Rightarrow> Module \<Rightarrow> error + ConfigGraph" where
  "addModule K cg modul =
     (let moduleKey = keyForModule K modul;
          cg1 = cg\<lparr> moduleMap := writeProp (moduleMap cg) moduleKey modul \<rparr>;
          (cg2, buildNode) = cg_getNode cg1 ''build'' moduleKey moduleKey;
          cg3 = fold (\<lambda>buildDep cg'.
                   (let buildDepKey = K (bd_name buildDep) (bd_plugin buildDep)
                    in addRelation cg' buildNode ''build'' buildDepKey buildDepKey))
                  (m_buildDependencies modul) cg2
      in case addAll (\<lambda>cg' config. addService K cg' modul moduleKey config) cg3 (m_serviceConfigs modul) of
           Inl e \<Rightarrow> Inl e
         | Inr cg4 \<Rightarrow>
             (case addAll (\<lambda>cg' config. addTask K cg' modul moduleKey config) cg4 (m_taskConfigs modul) of
                Inl e \<Rightarrow> Inl e
              | Inr cg5 \<Rightarrow> addAll (\<lambda>cg' config. addTest K cg' modul moduleKey config) cg5 (m_testConfigs modul)))"

definition ConfigGraph_empty :: ConfigGraph where
  "ConfigGraph_empty =
     \<lparr> cg_index = [], moduleMap = [], serviceMap = [], taskMap = [], testConfigMap = [],
       testConfigModuleMap = [] \<rparr>"

definition ConfigGraph_new :: "ModuleKey \<Rightarrow> Module list \<Rightarrow> error + ConfigGraph" where
  "ConfigGraph_new K modules = addAll (addModule K) ConfigGraph_empty modules"

section \<open>Concrete inputs\<close>

text \<open>
  A cache filled by 1000 calls of \<open>put\<close> with distinct keys, the \<open>i\<close>-th result completed
  at time \<open>i\<close>.
\<close>

definition entry :: "TaskResult \<Rightarrow> string \<times> TaskResult" where
  "entry r = (r_key r, r)"

definition numbered_result :: "nat \<Rightarrow> TaskResult" where
  "numbered_result i =
     TaskResult ''test.a'' (''test.a.'' @ replicate i (CHR ''x'')) ''id'' ''{}'' ''test'' ''a''
       (Some ''out'') [] None i i"

definition numbered_cache :: "nat \<Rightarrow> ResultCache" where
  "numbered_cache n = fold (\<lambda>i c. put c (numbered_result i)) [0..<n] ResultCache_new"

text \<open>
  A table of handlers is in order when each action type's handlers have distinct plugin
  names and each is stored under its own \<open>pluginName\<close>; \<open>addActionHandler\<close> keeps it so.
  A plugin name is given when it is neither omitted nor empty.
\<close>

definition handlers_ok :: "Garden \<Rightarrow> bool" where
  "handlers_ok g \<longleftrightarrow>
     (\<forall>t hs. actionHandlers g t = Some hs \<longrightarrow>
        distinct (map fst hs) \<and> (\<forall>kh \<in> set hs. h_pluginName (snd kh) = fst kh))"

definition truthyName :: "string option \<Rightarrow> bool" where
  "truthyName pluginName \<longleftrightarrow> (case pluginName of None \<Rightarrow> False | Some p \<Rightarrow> p \<noteq> [])"

text \<open>Registering handlers one after the other, as \<open>loadPlugin\<close> does for each plugin.\<close>

fun registerAll :: "Garden \<Rightarrow> (string \<times> string \<times> string) list \<Rightarrow> error + Garden" where
  "registerAll g [] = Inr g"
| "registerAll g ((pluginName, actionType, handler) # rest) =
     (case addActionHandler g pluginName actionType handler of
        Inl e \<Rightarrow> Inl e
      | Inr g1 \<Rightarrow> registerAll g1 rest)"

definition garden0 :: Garden where
  "garden0 = Garden_new [''prepareEnvironment'', ''cleanupEnvironment''] ''local''"

definition registrations :: "(string \<times> string \<times> string) list" where
  "registrations =
     [(''plugin-a'', ''prepareEnvironment'', ''a1''),
      (''plugin-b'', ''prepareEnvironment'', ''b1''),
      (''plugin-a'', ''prepareEnvironment'', ''a2'')]"

definition garden_aba :: Garden where
  "garden_aba = (case registerAll garden0 registrations of Inr g \<Rightarrow> g | Inl e \<Rightarrow> garden0)"

definition dummyHandler :: Handler where
  "dummyHandler = \<lparr> h_actionType = ''cleanupEnvironment'', h_pluginName = ''none'', h_handler = ''dummy'' \<rparr>"

text \<open>
  The dependency names that the services, tasks and tests of a list of modules declare, and
  the names of the services and tasks that the modules define.
\<close>

definition declaredDependencies :: "Module list \<Rightarrow> string list" where
  "declaredDependencies modules =
     concat (map (\<lambda>m. concat (map dc_dependencies (m_serviceConfigs m @ m_taskConfigs m @ m_testConfigs m)))
               modules)"

definition definedNames :: "Module list \<Rightarrow> string list" where
  "definedNames modules =
     concat (map (\<lambda>m. map dc_name (m_serviceConfigs m) @ map dc_name (m_taskConfigs m)) modules)"

text \<open>
  \<open>getModuleKey\<close> for the concrete inputs: the module name, behind the plugin name when the
  module has one.
\<close>

definition sampleModuleKey :: ModuleKey where
  "sampleModuleKey name plugin = (case plugin of None \<Rightarrow> name | Some p \<Rightarrow> p @ ''--'' @ name)"

definition module_a :: Module where
  "module_a =
     \<lparr> m_name = ''module-a'', m_plugin = None, m_buildDependencies = [],
       m_serviceConfigs = [\<lparr> dc_name = ''service-a'', dc_dependencies = [''missing''] \<rparr>],
       m_taskConfigs = [], m_testConfigs = [] \<rparr>"

definition module_b :: Module where
  "module_b =
     \<lparr> m_name = ''module-b'', m_plugin = None,
       m_buildDependencies = [\<lparr> bd_name = ''module-c'', bd_plugin = None \<rparr>],
       m_serviceConfigs = [\<lparr> dc_name = ''service-b'', dc_dependencies = [] \<rparr>],
       m_taskConfigs = [\<lparr> dc_name = ''task-b'', dc_dependencies = [''service-b''] \<rparr>],
       m_testConfigs = [\<lparr> dc_name = ''unit'', dc_dependencies = [''task-b'', ''task-z''] \<rparr>] \<rparr>"

definition names_within :: "ConfigGraph \<Rightarrow> string set \<Rightarrow> bool" where
  "names_within cg S \<longleftrightarrow> fst ` set (serviceMap cg) \<subseteq> S \<and> fst ` set (taskMap cg) \<subseteq> S"

definition dependenciesOf :: "Module \<Rightarrow> string list" where
  "dependenciesOf m = concat (map dc_dependencies (m_serviceConfigs m @ m_taskConfigs m @ m_testConfigs m))"

definition namesOf :: "Module \<Rightarrow> string list" where
  "namesOf m = map dc_name (m_serviceConfigs m) @ map dc_name (m_taskConfigs m)"

text \<open>
  Whatever the constructor throws is one of the two \<open>TypeError\<close>s or a
  \<open>ConfigurationError\<close>.
\<close>

definition thrown :: "error \<Rightarrow> bool" where
  "thrown e \<longleftrightarrow> e = undefinedModule \<or> e = undefinedName \<or> (\<exists>msg. e = ConfigurationError msg)"

text \<open>
  The names that a plain object inherits, and the \<open>TypeError\<close>s: reading \<open>.name\<close> of
  \<open>undefined\<close> is thrown only when one of the names is inherited (\<open>N\<close>).
\<close>

definition inherited :: "string \<Rightarrow> bool" where
  "inherited name \<longleftrightarrow> name \<in> set objectPrototype"

definition typeError :: "bool \<Rightarrow> error \<Rightarrow> bool" where
  "typeError N e \<longleftrightarrow> e = undefinedModule \<or> (N \<and> e = undefinedName)"

text \<open>When no name is defined twice, no \<open>ConfigurationError\<close> is thrown.\<close>

definition fresh_step :: "bool \<Rightarrow> (ConfigGraph \<Rightarrow> error + ConfigGraph) \<Rightarrow> ConfigGraph \<Rightarrow> string set \<Rightarrow> bool" where
  "fresh_step N f cg P \<longleftrightarrow>
     (\<forall>e. f cg = Inl e \<longrightarrow> typeError N e) \<and> (\<forall>cg'. f cg = Inr cg' \<longrightarrow> names_within cg' P)"

text \<open>A module with a service that depends on the name \<open>constructor\<close>, which nothing defines.\<close>

definition module_c :: Module where
  "module_c =
     \<lparr> m_name = ''module-c'', m_plugin = None, m_buildDependencies = [],
       m_serviceConfigs = [\<lparr> dc_name = ''service-c'', dc_dependencies = [''constructor''] \<rparr>],
       m_taskConfigs = [], m_testConfigs = [] \<rparr>"

section \<open>Runs of the task graph\<close>

text \<open>
  The steps of a task graph and the states it goes through from a new graph. A step runs at
  a time \<open>now\<close>: \<open>process\<close> is called with tasks and a parent, a task is added by
  \<open>addTaskInternal\<close>, \<open>loop\<close> runs, or the promise of a task that \<open>processTask\<close> started
  settles, with an output or with an error. In a run no step is before the step that precedes
  it.
\<close>

definition tick :: "TaskGraph \<Rightarrow> nat \<Rightarrow> TaskGraph" where
  "tick g now = g\<lparr> clock := now \<rparr>"

inductive step :: "TaskGraph \<Rightarrow> nat \<Rightarrow> TaskGraph \<Rightarrow> bool" where
  process: "step g now (fst (process (tick g now) tasks parent))"
| add: "addTaskInternal fuel (tick g now) task now = Some g' \<Longrightarrow> step g now g'"
| loop: "step g now (loop (tick g now) now)"
| resolved: "(node, result) \<in> set (processing g) \<Longrightarrow>
        step g now (fst (process_resolved (tick g now) node result out now))"
| rejected: "(node, result) \<in> set (processing g) \<Longrightarrow>
        process_rejected fuel (tick g now) node result err now = Some (g', e) \<Longrightarrow> step g now g'"

inductive reachable :: "TaskGraph \<Rightarrow> bool" where
  new: "reachable (TaskGraph_new limit)"
| step: "reachable g \<Longrightarrow> clock g \<le> now \<Longrightarrow> step g now g' \<Longrightarrow> reachable g'"

text \<open>
  A node map is in order when its keys are distinct, each node is stored under its own key
  and the counter is the number of entries.
\<close>

definition nm_ok :: "TaskNodeMap \<Rightarrow> bool" where
  "nm_ok m \<longleftrightarrow>
     distinct (map fst (nm_index m)) \<and> nm_length m = int (length (nm_index m)) \<and>
     (\<forall>kn \<in> set (nm_index m). n_key (snd kn) = fst kn)"

text \<open>
  The in-progress tasks of type \<open>t\<close> whose task has the per-type limit \<open>k\<close> and that were
  not enqueued by a parent of the same type.
\<close>

definition inProgressOf :: "TaskGraph \<Rightarrow> string \<Rightarrow> nat \<Rightarrow> TaskNode list" where
  "inProgressOf g t k =
     filter (\<lambda>n. n_type n = t \<and> t_concurrencyLimit (n_task n) = Some k \<and> \<not> sameTypeParent n)
       (nm_getNodes (inProgress g))"

definition ceiling_ok :: "TaskGraph \<Rightarrow> bool" where
  "ceiling_ok g \<longleftrightarrow>
     nm_ok (inProgress g) \<and> nm_length (inProgress g) \<le> int (concurrencyLimit g) \<and>
     (\<forall>t k. 0 < k \<longrightarrow> length (inProgressOf g t k) \<le> k)"

text \<open>Terminal events, and the nodes that transitively depend on a node.\<close>

definition terminal :: "Event \<Rightarrow> bool" where
  "terminal e \<longleftrightarrow> (case e of TaskComplete r \<Rightarrow> True | TaskError r \<Rightarrow> True | _ \<Rightarrow> False)"

definition isTaskProcessing :: "Event \<Rightarrow> bool" where
  "isTaskProcessing e \<longleftrightarrow> (case e of TaskProcessing t k v \<Rightarrow> True | _ \<Rightarrow> False)"

inductive transDependant :: "TaskGraph \<Rightarrow> TaskNode \<Rightarrow> TaskNode \<Rightarrow> bool" where
  direct: "n \<in> set (nm_getNodes (index g)) \<Longrightarrow> dependsOn g n node \<Longrightarrow> transDependant g node n"
| step: "m \<in> set (nm_getNodes (index g)) \<Longrightarrow> dependsOn g m node \<Longrightarrow> transDependant g m n \<Longrightarrow>
         transDependant g node n"

text \<open>
  A ranking of base keys that every dependency edge of the graph respects: a node ranks
  below each node it depends on. With one, \<open>getDependants\<close> returns.
\<close>

definition ranked :: "TaskGraph \<Rightarrow> (string \<Rightarrow> nat) \<Rightarrow> bool" where
  "ranked g rank \<longleftrightarrow>
     (\<forall>n \<in> set (nm_getNodes (index g)). \<forall>d \<in> set (getDependencies g n).
        rank (n_baseKey n) < rank (n_baseKey d))"

text \<open>
  Two graphs that differ at most in the dependency maps of their nodes, and two graphs that
  differ at most in the index, the roots, the dependency maps and the dependency cache.
\<close>

definition same_but_deps :: "TaskGraph \<Rightarrow> TaskGraph \<Rightarrow> bool" where
  "same_but_deps g g' \<longleftrightarrow>
     inProgress g' = inProgress g \<and> concurrencyLimit g' = concurrencyLimit g \<and> index g' = index g \<and>
     processing g' = processing g \<and> resultCache g' = resultCache g \<and>
     taskDependencyCache g' = taskDependencyCache g \<and> clock g' = clock g \<and> events g' = events g \<and>
     roots g' = roots g"

definition same_run :: "TaskGraph \<Rightarrow> TaskGraph \<Rightarrow> bool" where
  "same_run g g' \<longleftrightarrow>
     inProgress g' = inProgress g \<and> concurrencyLimit g' = concurrencyLimit g \<and>
     processing g' = processing g \<and> resultCache g' = resultCache g \<and> clock g' = clock g \<and>
     events g' = events g"

text \<open>
  A node is started in order when it is a root and in the index, no node of the index is one
  of its dependencies, and the result object built for it is stamped with the time of the
  step.
\<close>

definition started_ok :: "TaskGraph \<Rightarrow> nat \<Rightarrow> TaskNode \<Rightarrow> TaskResult \<Rightarrow> bool" where
  "started_ok g now b rb \<longleftrightarrow>
     b \<in> set (nm_getNodes (roots g)) \<and> b \<in> set (nm_getNodes (index g)) \<and>
     getDependencies g b = [] \<and>
     (\<forall>a \<in> set (nm_getNodes (index g)). n_baseKey a \<notin> set (taskDeps g b)) \<and>
     r_startedAt rb = now \<and> r_key rb = n_key b"

text \<open>
  An event that a step at time \<open>now\<close> emits carries that time; no step emits
  \<open>taskProcessing\<close>. In a run the index is in order and every event emitted so far carries a
  time that is not after the clock.
\<close>

definition stamped :: "nat \<Rightarrow> Event \<Rightarrow> bool" where
  "stamped now e \<longleftrightarrow>
     (case e of
        TaskPending t k v \<Rightarrow> t = now
      | TaskProcessing t k v \<Rightarrow> False
      | TaskComplete r \<Rightarrow> r_completedAt r = now
      | TaskError r \<Rightarrow> r_completedAt r = now
      | TaskGraphProcessing t \<Rightarrow> t = now
      | TaskGraphComplete t \<Rightarrow> t = now)"

definition run_ok :: "TaskGraph \<Rightarrow> bool" where
  "run_ok g \<longleftrightarrow> nm_ok (index g) \<and> (\<forall>e \<in> set (events g). \<exists>t \<le> clock g. stamped t e)"

section \<open>A run of two tasks\<close>

text \<open>
  Task \<open>deploy.b\<close> depends on task \<open>build.a\<close>, which has the per-type limit 1. The run:
  \<open>deploy.b\<close> is added at time 1, \<open>loop\<close> runs at time 2 and starts \<open>build.a\<close>, whose
  promise resolves at time 3, and the \<open>loop\<close> of its \<open>finally\<close> handler starts
  \<open>deploy.b\<close>, whose promise resolves at time 4.
\<close>

definition task_a :: BaseTask where
  "task_a = BaseTask ''build'' ''build.a'' ''build.a.v1'' ''1'' False ''v1'' (Some 1) ''{}''
     ''building a'' []"

definition task_b :: BaseTask where
  "task_b = BaseTask ''deploy'' ''deploy.b'' ''deploy.b.v1'' ''2'' False ''v1'' None ''{}''
     ''deploying b'' [task_a]"

definition node_a :: TaskNode where
  "node_a = TaskNode_new task_a None"

definition node_b :: TaskNode where
  "node_b = TaskNode_new task_b None"

definition result_a :: TaskResult where
  "result_a = TaskResult ''build.a'' ''build.a.v1'' ''1'' ''{}'' ''build'' ''building a'' None [] None 2 2"

definition result_b :: TaskResult where
  "result_b = TaskResult ''deploy.b'' ''deploy.b.v1'' ''2'' ''{}'' ''deploy'' ''deploying b'' None [] None 3 3"

definition orElse :: "'a option \<Rightarrow> 'a \<Rightarrow> 'a" where
  "orElse r d = (case r of Some x \<Rightarrow> x | None \<Rightarrow> d)"

definition run0 :: TaskGraph where
  "run0 = TaskGraph_new 2"

definition run1 :: TaskGraph where
  "run1 = orElse (addTaskInternal 3 (tick run0 1) task_b 1) run0"

definition run2 :: TaskGraph where
  "run2 = loop (tick run1 2) 2"

definition run3 :: TaskGraph where
  "run3 = fst (process_resolved (tick run2 3) node_a result_a ''built'' 3)"

definition run4 :: TaskGraph where
  "run4 = fst (process_resolved (tick run3 4) node_b result_b ''deployed'' 4)"

text \<open>
  A task whose \<open>concurrencyLimit\<close> is 0, added to a new graph at time 1; \<open>loop\<close> runs at
  time 2.
\<close>

definition task_z :: BaseTask where
  "task_z = BaseTask ''test'' ''test.z'' ''test.z.v1'' ''3'' False ''v1'' (Some 0) ''{}''
     ''testing z'' []"

definition zero1 :: TaskGraph where
  "zero1 = orElse (addTaskInternal 2 (tick run0 1) task_z 1) run0"

definition zero2 :: TaskGraph where
  "zero2 = loop (tick zero1 2) 2"

section \<open>A dependency that is added again while its dependant runs\<close>

text \<open>
  The run of two tasks goes on after \<open>build.a\<close> has completed and \<open>deploy.b\<close> has been
  started at time 3: \<open>build.a\<close> is added again at time 4 (\<open>getNode\<close> reads the cache under
  the base key, finds nothing and makes a new node) and \<open>loop\<close> starts it at time 5. At
  time 6 its promise resolves (\<open>run7r\<close>), or it rejects (\<open>run7\<close>) and \<open>deploy.b\<close>, which is
  running, is cancelled. After the rejection the task \<open>deploy.e\<close>, which depends on \<open>test.c\<close>
  and \<open>test.d\<close>, is added at time 7, and \<open>loop\<close> runs at time 8.
\<close>

definition run5 :: TaskGraph where
  "run5 = orElse (addTaskInternal 2 (tick run3 4) task_a 4) run3"

definition run6 :: TaskGraph where
  "run6 = loop (tick run5 5) 5"

definition result_a5 :: TaskResult where
  "result_a5 = TaskResult ''build.a'' ''build.a.v1'' ''1'' ''{}'' ''build'' ''building a'' None [] None 5 5"

definition run7r :: TaskGraph where
  "run7r = fst (process_resolved (tick run6 6) node_a result_a5 ''built again'' 6)"

definition run7 :: TaskGraph where
  "run7 = orElse (map_option fst (process_rejected 2 (tick run6 6) node_a result_a5 ''failed'' 6)) run6"

definition task_c :: BaseTask where
  "task_c = BaseTask ''test'' ''test.c'' ''test.c.v1'' ''5'' False ''v1'' None ''{}'' ''testing c'' []"

definition task_d :: BaseTask where
  "task_d = BaseTask ''test'' ''test.d'' ''test.d.v1'' ''6'' False ''v1'' None ''{}'' ''testing d'' []"

definition task_e :: BaseTask where
  "task_e = BaseTask ''deploy'' ''deploy.e'' ''deploy.e.v1'' ''7'' False ''v1'' None ''{}''
     ''deploying e'' [task_c, task_d]"

definition node_c :: TaskNode where
  "node_c = TaskNode_new task_c None"

definition node_d :: TaskNode where
  "node_d = TaskNode_new task_d None"

definition node_e :: TaskNode where
  "node_e = TaskNode_new task_e None"

definition result_c :: TaskResult where
  "result_c = TaskResult ''test.c'' ''test.c.v1'' ''5'' ''{}'' ''test'' ''testing c'' None [] None 8 8"

definition result_d :: TaskResult where
  "result_d = TaskResult ''test.d'' ''test.d.v1'' ''6'' ''{}'' ''test'' ''testing d'' None [] None 8 8"

definition run8 :: TaskGraph where
  "run8 = orElse (addTaskInternal 2 (tick run7 7) task_e 7) run7"

definition run9 :: TaskGraph where
  "run9 = loop (tick run8 8) 8"

section \<open>A task enqueued by a parent of its type\<close>

text \<open>
  A graph in which \<open>build.p\<close>, with the per-type limit 1, is in progress, and \<open>build.q\<close>, of
  the same type and limit, is indexed as a node whose parent is \<open>build.p\<close>; \<open>loop\<close> runs at
  time 1.
\<close>

definition task_p :: BaseTask where
  "task_p = BaseTask ''build'' ''build.p'' ''build.p.v1'' ''8'' False ''v1'' (Some 1) ''{}''
     ''building p'' []"

definition task_q :: BaseTask where
  "task_q = BaseTask ''build'' ''build.q'' ''build.q.v1'' ''9'' False ''v1'' (Some 1) ''{}''
     ''building q'' []"

definition node_p :: TaskNode where
  "node_p = TaskNode_new task_p None"

definition node_q :: TaskNode where
  "node_q = TaskNode_new task_q (Some task_p)"

definition fam0 :: TaskGraph where
  "fam0 = (TaskGraph_new 10)
     \<lparr> index := nm_setNodes TaskNodeMap_new [node_p, node_q],
       inProgress := nm_setNodes TaskNodeMap_new [node_p] \<rparr>"

definition fam1 :: TaskGraph where
  "fam1 = loop (tick fam0 1) 1"

section \<open>A dependency that fails while its dependant waits\<close>

text \<open>
  In the run of two tasks, the promise of \<open>build.a\<close> rejects at time 3, while \<open>deploy.b\<close>
  waits for it. The ranking puts \<open>build.a\<close> above everything else.
\<close>

definition rank_ab :: "string \<Rightarrow> nat" where
  "rank_ab k = (if k = ''build.a'' then 1 else 0)"

definition run3f :: TaskGraph where
  "run3f = orElse (map_option fst (process_rejected 2 (tick run2 3) node_a result_a ''failed'' 3)) run2"

section \<open>The result cache evicts the newest results\<close>

lemma cleanupCount_eq: "cleanupCount = 800"
  by (simp add: cleanupCount_def MAX_CACHE_SIZE_def CACHE_CLEANUP_RATIO_def)

lemma fold_delete_filter:
  "fold (\<lambda>result al. AList.delete (r_key result) al) ds al = filter (\<lambda>p. fst p \<notin> r_key ` set ds) al"
proof (induction ds arbitrary: al)
  case Nil
  then show ?case by simp
next
  case (Cons d ds)
  have "AList.delete (r_key d) al = filter (\<lambda>p. fst p \<noteq> r_key d) al"
    by (induction al) auto
  then show ?case
    by (simp add: Cons.IH conj_commute)
qed

lemma filter_entry_split:
  assumes "distinct (map r_key (xs @ ys))"
  shows "filter (\<lambda>p. fst p \<notin> r_key ` set ys) (map entry (xs @ ys)) = map entry xs"
proof -
  have d: "r_key ` set xs \<inter> r_key ` set ys = {}"
    using assms by auto
  have f1: "filter (\<lambda>x. r_key x \<notin> r_key ` set ys) xs = xs"
    using d by (intro filter_True) auto
  have f2: "filter (\<lambda>x. r_key x \<notin> r_key ` set ys) ys = []"
    by (simp add: filter_empty_conv)
  show ?thesis
    using f1 f2 by (simp add: entry_def filter_map comp_def)
qed

lemma cleanup_sorted:
  assumes "sorted (map r_completedAt rs)" and "distinct (map r_key rs)"
  shows "cache (cleanup \<lparr> cache = map entry rs, cache_length = n \<rparr>) = map entry (take cleanupCount rs)"
proof -
  have s: "sort_key r_completedAt rs = rs"
    using assms(1) by (rule sort_key_id_if_sorted)
  have m: "map snd (map entry rs) = rs"
    by (simp add: entry_def comp_def)
  have e: "expired \<lparr> cache = map entry rs, cache_length = n \<rparr> = drop cleanupCount rs"
    unfolding expired_def using m s by simp
  have "filter (\<lambda>p. fst p \<notin> r_key ` set (drop cleanupCount rs))
          (map entry (take cleanupCount rs @ drop cleanupCount rs)) = map entry (take cleanupCount rs)"
    by (rule filter_entry_split) (simp add: assms(2))
  then show ?thesis
    by (simp add: cleanup_def e fold_delete_filter)
qed

lemma update_fresh: "k \<notin> fst ` set al \<Longrightarrow> AList.update k v al = al @ [(k, v)]"
  by (induction al) auto

lemma numbered_key_inj: "r_key (numbered_result i) = r_key (numbered_result j) \<longleftrightarrow> i = j"
proof
  assume "r_key (numbered_result i) = r_key (numbered_result j)"
  then have "length (replicate i (CHR ''x'')) = length (replicate j (CHR ''x''))"
    by (simp add: numbered_result_def)
  then show "i = j" by simp
qed simp

lemma numbered_cache_below:
  "n < MAX_CACHE_SIZE \<Longrightarrow>
   numbered_cache n = \<lparr> cache = map (entry \<circ> numbered_result) [0..<n], cache_length = n \<rparr>"
proof (induction n)
  case 0
  then show ?case by (simp add: numbered_cache_def ResultCache_new_def)
next
  case (Suc n)
  then have ih: "numbered_cache n = \<lparr> cache = map (entry \<circ> numbered_result) [0..<n], cache_length = n \<rparr>"
    by simp
  have fresh: "r_key (numbered_result n) \<notin> fst ` set (map (entry \<circ> numbered_result) [0..<n])"
    by (auto simp: entry_def numbered_key_inj)
  have "numbered_cache (Suc n) = put (numbered_cache n) (numbered_result n)"
    by (simp add: numbered_cache_def)
  also have "\<dots> = \<lparr> cache = map (entry \<circ> numbered_result) [0..<n] @ [entry (numbered_result n)],
                      cache_length = Suc n \<rparr>"
    using Suc.prems update_fresh [OF fresh, of "numbered_result n"]
    by (simp add: ih put_def Let_def entry_def)
  finally show ?case by simp
qed

lemma numbered_cache_full:
  "cache (numbered_cache MAX_CACHE_SIZE) = map (entry \<circ> numbered_result) [0..<cleanupCount]"
proof -
  define n where "n = MAX_CACHE_SIZE - 1"
  have n: "n < MAX_CACHE_SIZE" "Suc n = MAX_CACHE_SIZE"
    by (simp_all add: n_def MAX_CACHE_SIZE_def)
  have fresh: "r_key (numbered_result n) \<notin> fst ` set (map (entry \<circ> numbered_result) [0..<n])"
    by (auto simp: entry_def numbered_key_inj)
  have below: "numbered_cache n = \<lparr> cache = map (entry \<circ> numbered_result) [0..<n], cache_length = n \<rparr>"
    using n(1) by (rule numbered_cache_below)
  have ge: "MAX_CACHE_SIZE \<le> n + 1"
    using n(2) by simp
  have "numbered_cache (Suc n) = put (numbered_cache n) (numbered_result n)"
    by (simp add: numbered_cache_def)
  also have "\<dots> = cleanup \<lparr> cache = map (entry \<circ> numbered_result) [0..<n] @ [entry (numbered_result n)],
                                cache_length = n + 1 \<rparr>"
    unfolding below put_def Let_def using ge update_fresh [OF fresh, of "numbered_result n"]
    by (simp add: entry_def)
  also have "map (entry \<circ> numbered_result) [0..<n] @ [entry (numbered_result n)]
               = map entry (map numbered_result [0..<Suc n])"
    by simp
  finally have "numbered_cache (Suc n) =
      cleanup \<lparr> cache = map entry (map numbered_result [0..<Suc n]), cache_length = n + 1 \<rparr>" .
  moreover have "sorted (map r_completedAt (map numbered_result [0..<Suc n]))"
    by (simp add: comp_def numbered_result_def del: upt_Suc)
  moreover have "distinct (map r_key (map numbered_result [0..<Suc n]))"
    by (simp add: distinct_map inj_on_def numbered_key_inj del: upt_Suc)
  ultimately have "cache (numbered_cache (Suc n)) = map entry (take cleanupCount (map numbered_result [0..<Suc n]))"
    by (simp only: cleanup_sorted)
  moreover have "take cleanupCount (map numbered_result [0..<Suc n]) = map numbered_result [0..<cleanupCount]"
    using n(2) by (simp add: take_map cleanupCount_eq MAX_CACHE_SIZE_def take_upt del: upt_Suc)
  ultimately show ?thesis using n(2) by simp
qed

text \<open>
  C6. After the 1000th insertion \<open>cleanup\<close> runs and deletes what lies behind the first
  800 results in ascending order of \<open>completedAt\<close>: the newest 200 results are evicted,
  the result just inserted among them, and the oldest 800 stay. The claim, and the comment
  in \<open>cleanup\<close>, say the oldest 80% are evicted and the newest 20% stay.
\<close>

theorem cleanup_evicts_newest:
  "get (numbered_cache 1000) (r_key (numbered_result 999)) = None \<and>
   get (numbered_cache 1000) (r_key (numbered_result 0)) = Some (numbered_result 0) \<and>
   map (r_completedAt \<circ> snd) (cache (numbered_cache 1000)) = [0..<800]"
proof -
  have c: "cache (numbered_cache 1000) = map (entry \<circ> numbered_result) [0..<800]"
    using numbered_cache_full by (simp add: MAX_CACHE_SIZE_def cleanupCount_eq)
  have m: "map_of (map (entry \<circ> numbered_result) [0..<800]) (r_key (numbered_result i))
             = (if i < 800 then Some (numbered_result i) else None)" for i
  proof (cases "i < 800")
    case True
    have "(r_key (numbered_result i), numbered_result i) \<in> set (map (entry \<circ> numbered_result) [0..<800])"
      using True by (auto simp: entry_def)
    moreover have "distinct (map fst (map (entry \<circ> numbered_result) [0..<800]))"
      by (simp add: distinct_map inj_on_def comp_def entry_def numbered_key_inj)
    ultimately show ?thesis using True by simp
  next
    case False
    then have "r_key (numbered_result i) \<notin> fst ` set (map (entry \<circ> numbered_result) [0..<800])"
      by (auto simp: entry_def numbered_key_inj)
    then show ?thesis using False by (simp add: map_of_eq_None_iff)
  qed
  have "map (r_completedAt \<circ> snd) (map (entry \<circ> numbered_result) [0..<800]) = map id [0..<800]"
    unfolding map_map by (rule map_cong) (simp_all add: entry_def numbered_result_def)
  moreover have "r_key (numbered_result 0) = r_key (numbered_result 0) \<and> r_error (numbered_result 0) = None"
    by (simp add: numbered_result_def)
  ultimately show ?thesis
    unfolding get_def c m by simp
qed


section \<open>Dispatch of action handlers\<close>

lemma Garden_new_ok: "handlers_ok (Garden_new names env)"
  by (auto simp: handlers_ok_def Garden_new_def map_of_eq_Some_iff dest!: map_of_SomeD)

lemma update_entries:
  "kh \<in> set (AList.update k v al) \<Longrightarrow> kh = (k, v) \<or> kh \<in> set al"
  by (induction al) (auto split: if_splits)

lemma addActionHandler_ok:
  assumes ok: "handlers_ok g" and add: "addActionHandler g p t h = Inr g'"
  shows "handlers_ok g'"
proof -
  obtain hs where hs: "actionHandlers g t = Some hs"
    using add by (auto simp: addActionHandler_def split: option.splits)
  define w where "w = \<lparr> h_actionType = t, h_pluginName = p, h_handler = h \<rparr>"
  have g': "actionHandlers g' = (actionHandlers g)(t \<mapsto> AList.update p w hs)"
    using add hs by (auto simp: addActionHandler_def w_def)
  have old: "distinct (map fst hs)" "\<forall>kh \<in> set hs. h_pluginName (snd kh) = fst kh"
    using ok hs unfolding handlers_ok_def by blast+
  have new: "distinct (map fst (AList.update p w hs))"
       "\<forall>kh \<in> set (AList.update p w hs). h_pluginName (snd kh) = fst kh"
    using old by (auto simp: distinct_update w_def dest!: update_entries)
  show ?thesis
    unfolding handlers_ok_def g' using ok new unfolding handlers_ok_def
    by (auto split: if_splits)
qed

lemma registerAll_ok:
  "handlers_ok g \<Longrightarrow> registerAll g rs = Inr g' \<Longrightarrow> handlers_ok g'"
  by (induction g rs rule: registerAll.induct)
     (auto split: sum.splits dest: addActionHandler_ok)

lemma filter_by_name:
  assumes "distinct (map fst hs)" and "\<forall>kh \<in> set hs. h_pluginName (snd kh) = fst kh"
    and "map_of hs p = Some h"
  shows "filter (\<lambda>kh. h_pluginName (snd kh) = p) hs = [(p, h)]"
  using assms
proof (induction hs)
  case Nil
  then show ?case by simp
next
  case (Cons a hs)
  show ?case
  proof (cases "fst a = p")
    case True
    with Cons.prems have "a = (p, h)" by (cases a) auto
    moreover have "filter (\<lambda>kh. h_pluginName (snd kh) = p) hs = []"
      using Cons.prems True by (auto simp: filter_empty_conv) (metis fst_conv image_eqI)
    ultimately show ?thesis using Cons.prems by simp
  next
    case False
    with Cons show ?thesis by auto
  qed
qed

text \<open>
  A plugin that registers a handler for an action type for the first time is stored last;
  one that registers again has its handler replaced where it stands.
\<close>

lemma addActionHandler_first_time:
  assumes "actionHandlers g t = Some hs" and "p \<notin> fst ` set hs"
  shows "\<exists>g'. addActionHandler g p t h = Inr g' \<and>
           actionHandlers g' t = Some (hs @ [(p, \<lparr> h_actionType = t, h_pluginName = p, h_handler = h \<rparr>)])"
proof -
  have "AList.update p v hs = hs @ [(p, v)]" for v
    using assms(2) by (induction hs) auto
  then show ?thesis using assms(1) by (simp add: addActionHandler_def)
qed

lemma addActionHandler_again:
  assumes "actionHandlers g t = Some hs" and "p \<in> fst ` set hs"
  shows "\<exists>g'. addActionHandler g p t h = Inr g' \<and>
           (\<exists>hs'. actionHandlers g' t = Some hs' \<and> map fst hs' = map fst hs)"
proof -
  have "map fst (AList.update p v hs) = map fst hs" for v
    using assms(2) by (induction hs) auto
  then show ?thesis using assms(1) by (simp add: addActionHandler_def)
qed

text \<open>
  C8, as amended. In a table that is in order: with a plugin name, \<open>getActionHandler\<close>
  returns the handler registered under it; without one it returns the handler stored last
  for the action type; when no handler is found and the caller gave a default handler, that
  handler is returned, tagged with the name of the default provider; otherwise the call
  fails, with a \<open>PluginError\<close> when a plugin name was given and with a \<open>ParameterError\<close>
  when not.
\<close>

theorem getActionHandler_dispatch:
  assumes "handlers_ok g"
  shows "(\<forall>p hs h. p \<noteq> [] \<and> actionHandlers g t = Some hs \<and> map_of hs p = Some h \<longrightarrow>
            getActionHandler g t (Some p) d = Inr h)
       \<and> (\<forall>hs. \<not> truthyName pn \<and> actionHandlers g t = Some hs \<and> hs \<noteq> [] \<longrightarrow>
            getActionHandler g t pn d = Inr (snd (last hs)))
       \<and> (\<forall>dh. getActionHandlers g t pn = [] \<and> d = Some dh \<longrightarrow>
            getActionHandler g t pn d = Inr (dh\<lparr> h_pluginName := defaultProvider_name \<rparr>))
       \<and> (getActionHandlers g t pn = [] \<and> d = None \<longrightarrow>
            (\<exists>msg. getActionHandler g t pn d =
                    (if truthyName pn then Inl (PluginError msg) else Inl (ParameterError msg))))"
proof (intro conjI allI impI)
  fix p hs h
  assume a: "p \<noteq> [] \<and> actionHandlers g t = Some hs \<and> map_of hs p = Some h"
  then have "filter (\<lambda>kh. h_pluginName (snd kh) = p) hs = [(p, h)]"
    using assms unfolding handlers_ok_def by (intro filter_by_name) auto
  then show "getActionHandler g t (Some p) d = Inr h"
    using a by (simp add: getActionHandler_def getActionHandlers_def filterActionHandlers_def)
next
  fix hs
  assume a: "\<not> truthyName pn \<and> actionHandlers g t = Some hs \<and> hs \<noteq> []"
  then have "getActionHandlers g t pn = hs"
    by (auto simp: getActionHandlers_def filterActionHandlers_def truthyName_def split: option.splits)
  then show "getActionHandler g t pn d = Inr (snd (last hs))"
    using a by (simp add: getActionHandler_def Let_def last_conv_nth last_map [symmetric] del: last_map)
next
  fix dh
  assume "getActionHandlers g t pn = [] \<and> d = Some dh"
  then show "getActionHandler g t pn d = Inr (dh\<lparr> h_pluginName := defaultProvider_name \<rparr>)"
    by (simp add: getActionHandler_def)
next
  assume "getActionHandlers g t pn = [] \<and> d = None"
  then show "\<exists>msg. getActionHandler g t pn d =
                    (if truthyName pn then Inl (PluginError msg) else Inl (ParameterError msg))"
    by (auto simp: getActionHandler_def truthyName_def split: option.splits)
qed

lemma registered_eval:
  "registerAll garden0 registrations =
     Inr \<lparr> actionHandlers =
            [''prepareEnvironment'' \<mapsto>
               [(''plugin-a'', \<lparr> h_actionType = ''prepareEnvironment'', h_pluginName = ''plugin-a'', h_handler = ''a2'' \<rparr>),
                (''plugin-b'', \<lparr> h_actionType = ''prepareEnvironment'', h_pluginName = ''plugin-b'', h_handler = ''b1'' \<rparr>)],
             ''cleanupEnvironment'' \<mapsto> []],
          environmentName = ''local'' \<rparr>"
  by (simp add: garden0_def registrations_def Garden_new_def addActionHandler_def fun_upd_twist)

lemma garden_aba_handlers:
  "actionHandlers garden_aba ''prepareEnvironment'' =
     Some [(''plugin-a'', \<lparr> h_actionType = ''prepareEnvironment'', h_pluginName = ''plugin-a'', h_handler = ''a2'' \<rparr>),
           (''plugin-b'', \<lparr> h_actionType = ''prepareEnvironment'', h_pluginName = ''plugin-b'', h_handler = ''b1'' \<rparr>)]"
  "actionHandlers garden_aba ''cleanupEnvironment'' = Some []"
  by (simp_all add: garden_aba_def registered_eval)

lemma garden_aba_ok: "handlers_ok garden_aba"
proof -
  have "handlers_ok garden0"
    unfolding garden0_def by (rule Garden_new_ok)
  moreover have "registerAll garden0 registrations = Inr garden_aba"
    by (simp add: garden_aba_def registered_eval)
  ultimately show ?thesis by (rule registerAll_ok)
qed

theorem getActionHandler_dispatch_witness:
  "handlers_ok garden_aba
   \<and> getActionHandler garden_aba ''prepareEnvironment'' (Some ''plugin-a'') None =
       Inr \<lparr> h_actionType = ''prepareEnvironment'', h_pluginName = ''plugin-a'', h_handler = ''a2'' \<rparr>
   \<and> getActionHandler garden_aba ''prepareEnvironment'' None None =
       Inr \<lparr> h_actionType = ''prepareEnvironment'', h_pluginName = ''plugin-b'', h_handler = ''b1'' \<rparr>
   \<and> getActionHandler garden_aba ''cleanupEnvironment'' None (Some dummyHandler) =
       Inr \<lparr> h_actionType = ''cleanupEnvironment'', h_pluginName = ''_default'', h_handler = ''dummy'' \<rparr>
   \<and> (\<exists>msg. getActionHandler garden_aba ''cleanupEnvironment'' (Some ''plugin-a'') None = Inl (PluginError msg))
   \<and> (\<exists>msg. getActionHandler garden_aba ''cleanupEnvironment'' None None = Inl (ParameterError msg))"
proof -
  note ok = garden_aba_ok
  note ev = garden_aba_handlers
  have none: "getActionHandlers garden_aba ''cleanupEnvironment'' pn = []" for pn
    by (simp add: getActionHandlers_def filterActionHandlers_def ev split: option.splits)
  have 1: "getActionHandler garden_aba ''prepareEnvironment'' (Some ''plugin-a'') None =
       Inr \<lparr> h_actionType = ''prepareEnvironment'', h_pluginName = ''plugin-a'', h_handler = ''a2'' \<rparr>"
    using getActionHandler_dispatch [OF ok, where t = "''prepareEnvironment''" and pn = None and d = None] ev by simp
  have 2: "getActionHandler garden_aba ''prepareEnvironment'' None None =
       Inr \<lparr> h_actionType = ''prepareEnvironment'', h_pluginName = ''plugin-b'', h_handler = ''b1'' \<rparr>"
    using getActionHandler_dispatch [OF ok, where t = "''prepareEnvironment''" and pn = None and d = None] ev
    by (simp add: truthyName_def)
  have 3: "getActionHandler garden_aba ''cleanupEnvironment'' None (Some dummyHandler) =
       Inr \<lparr> h_actionType = ''cleanupEnvironment'', h_pluginName = ''_default'', h_handler = ''dummy'' \<rparr>"
    using getActionHandler_dispatch [OF ok, where t = "''cleanupEnvironment''" and pn = None and d = "Some dummyHandler"] none
    by (simp add: defaultProvider_name_def dummyHandler_def)
  have 4: "\<exists>msg. getActionHandler garden_aba ''cleanupEnvironment'' (Some ''plugin-a'') None = Inl (PluginError msg)"
    using getActionHandler_dispatch [OF ok, where t = "''cleanupEnvironment''" and pn = "Some ''plugin-a''" and d = None] none
    by (simp add: truthyName_def)
  have 5: "\<exists>msg. getActionHandler garden_aba ''cleanupEnvironment'' None None = Inl (ParameterError msg)"
    using getActionHandler_dispatch [OF ok, where t = "''cleanupEnvironment''" and pn = None and d = None] none
    by (simp add: truthyName_def)
  show ?thesis using ok 1 2 3 4 5 by simp
qed

text \<open>
  C8 as stated fails twice. With no handler, no default and no plugin name the error is a
  \<open>ParameterError\<close>; the code has no \<open>NoHandlerError\<close>. And after plugin-a, plugin-b and
  plugin-a again have registered a handler for one action type, the plugin registered last
  is plugin-a, but the handler returned is the one of plugin-b: the second registration of
  plugin-a replaced its handler in place.
\<close>

theorem getActionHandler_counterexample:
  "getActionHandler garden0 ''cleanupEnvironment'' None None =
     Inl (ParameterError (''No '' @ [CHR 0x27] @ ''cleanupEnvironment'' @ [CHR 0x27] @
            '' handler configured in environment '' @ [CHR 0x27] @ ''local'' @ [CHR 0x27] @
            ''. Are you missing a provider configuration?''))
   \<and> registerAll garden0 registrations = Inr garden_aba
   \<and> getActionHandler garden_aba ''prepareEnvironment'' None None =
       Inr \<lparr> h_actionType = ''prepareEnvironment'', h_pluginName = ''plugin-b'', h_handler = ''b1'' \<rparr>"
proof -
  have "getActionHandler garden0 ''cleanupEnvironment'' None None =
     Inl (ParameterError (''No '' @ [CHR 0x27] @ ''cleanupEnvironment'' @ [CHR 0x27] @
            '' handler configured in environment '' @ [CHR 0x27] @ ''local'' @ [CHR 0x27] @
            ''. Are you missing a provider configuration?''))"
    by (simp add: getActionHandler_def getActionHandlers_def filterActionHandlers_def garden0_def
          Garden_new_def)
  moreover have "registerAll garden0 registrations = Inr garden_aba"
    by (simp add: garden_aba_def registered_eval)
  moreover have "getActionHandler garden_aba ''prepareEnvironment'' None None =
       Inr \<lparr> h_actionType = ''prepareEnvironment'', h_pluginName = ''plugin-b'', h_handler = ''b1'' \<rparr>"
    by (simp add: getActionHandler_def getActionHandlers_def filterActionHandlers_def
          garden_aba_handlers)
  ultimately show ?thesis by simp
qed

section \<open>Unresolved dependency names in the configuration graph\<close>

lemma readProp_Own: "readProp obj name = Own v \<Longrightarrow> map_of obj name = Some v"
  by (auto simp: readProp_def split: option.splits if_splits)

lemma readProp_Inherited: "readProp obj name = Inherited \<Longrightarrow> inherited name"
  by (auto simp: readProp_def inherited_def split: option.splits if_splits)

lemma readProp_Undefined:
  "readProp obj name = Undefined \<Longrightarrow> map_of obj name = None \<and> name \<noteq> ''__proto__''"
  by (auto simp: readProp_def objectPrototype_def split: option.splits if_splits)

lemma readProp_fresh:
  assumes "name \<notin> fst ` set obj"
  shows "readProp obj name = (if inherited name then Inherited else Undefined)"
proof -
  have "map_of obj name = None" using assms by (simp add: map_of_eq_None_iff)
  then show ?thesis by (simp add: readProp_def inherited_def)
qed

lemma writeProp_keys: "fst ` set (writeProp al k v) \<subseteq> insert k (fst ` set al)"
proof -
  have "fst ` set (AList.update k v al) = insert k (fst ` set al)"
    by (induction al) auto
  then show ?thesis by (auto simp: writeProp_def)
qed

lemma writeProp_within: "fst ` set al \<subseteq> S \<Longrightarrow> k \<in> S \<Longrightarrow> fst ` set (writeProp al k v) \<subseteq> S"
  using writeProp_keys [of al k v] by blast

lemma typeError_thrown: "typeError N e \<Longrightarrow> thrown e"
  by (auto simp: typeError_def thrown_def)

lemma cg_getNode_maps:
  "cg_getNode cg t n m = (cg2, node) \<Longrightarrow> serviceMap cg2 = serviceMap cg \<and> taskMap cg2 = taskMap cg"
  by (auto simp: cg_getNode_def Let_def split: option.splits)

lemma addRelation_maps [simp]:
  "serviceMap (addRelation cg node t n m) = serviceMap cg"
  "taskMap (addRelation cg node t n m) = taskMap cg"
  by (auto simp: addRelation_def Let_def split: prod.splits dest: cg_getNode_maps)

lemma addDependencies_Inr:
  "addDependencies K cg node deps = Inr cg' \<Longrightarrow> names_within cg S \<Longrightarrow>
     names_within cg' S \<and> set deps \<subseteq> S"
proof (induction K cg node deps rule: addDependencies.induct)
  case (1 K cg node)
  then show ?case by simp
next
  case (2 K cg node depName rest)
  show ?case
  proof (cases "readProp (serviceMap cg) depName")
    case (Own m)
    then have "depName \<in> S"
      using "2.prems"(2)
      by (auto simp: names_within_def dest!: readProp_Own map_of_SomeD intro: rev_image_eqI)
    moreover have "names_within (addRelation cg node ''service'' depName (keyForModule K m)) S"
      using "2.prems"(2) by (simp add: names_within_def)
    ultimately show ?thesis
      using "2.IH"(1) [OF Own] "2.prems"(1) Own by simp
  next
    case Inherited
    then show ?thesis using "2.prems"(1) by simp
  next
    case Undefined
    show ?thesis
    proof (cases "readProp (taskMap cg) depName")
      case (Own m)
      then have "depName \<in> S"
        using "2.prems"(2)
        by (auto simp: names_within_def dest!: readProp_Own map_of_SomeD intro: rev_image_eqI)
      moreover have "names_within (addRelation cg node ''task'' depName (keyForModule K m)) S"
        using "2.prems"(2) by (simp add: names_within_def)
      ultimately show ?thesis
        using "2.IH"(2) [OF Undefined Own] "2.prems"(1) Undefined Own by simp
    next
      case Inherited
      then show ?thesis using "2.prems"(1) Undefined by simp
    next
      case U2: Undefined
      then show ?thesis using "2.prems"(1) Undefined by simp
    qed
  qed
qed

lemma addDependencies_Inl:
  "addDependencies K cg node deps = Inl e \<Longrightarrow> (\<forall>d \<in> set deps. inherited d \<longrightarrow> N) \<Longrightarrow>
     typeError N e"
  by (induction K cg node deps rule: addDependencies.induct)
     (auto simp: typeError_def split: Prop.splits dest: readProp_Inherited)

lemma addService_Inr:
  assumes "addService K cg m mk c = Inr cg'" and "names_within cg S" and "dc_name c \<in> S"
  shows "names_within cg' S \<and> set (dc_dependencies c) \<subseteq> S"
proof -
  define cg1 where "cg1 = cg\<lparr> serviceMap := writeProp (serviceMap cg) (dc_name c) m \<rparr>"
  obtain cg2 node where n: "cg_getNode cg1 ''service'' (dc_name c) mk = (cg2, node)"
    by (cases "cg_getNode cg1 ''service'' (dc_name c) mk") auto
  define cg3 where "cg3 = addRelation cg2 node ''build'' mk mk"
  have r: "addDependencies K cg3 node (dc_dependencies c) = Inr cg'"
    using assms(1) n by (simp add: addService_def Let_def cg1_def cg3_def split: Prop.splits)
  have "serviceMap cg3 = writeProp (serviceMap cg) (dc_name c) m" "taskMap cg3 = taskMap cg"
    using cg_getNode_maps [OF n] by (simp_all add: cg3_def cg1_def)
  then have "names_within cg3 S"
    using assms(2,3) by (simp add: names_within_def writeProp_within)
  then show ?thesis using addDependencies_Inr [OF r] by simp
qed


lemma addTask_Inr:
  assumes "addTask K cg m mk c = Inr cg'" and "names_within cg S" and "dc_name c \<in> S"
  shows "names_within cg' S \<and> set (dc_dependencies c) \<subseteq> S"
proof -
  define cg1 where "cg1 = cg\<lparr> taskMap := writeProp (taskMap cg) (dc_name c) m \<rparr>"
  obtain cg2 node where n: "cg_getNode cg1 ''task'' (dc_name c) mk = (cg2, node)"
    by (cases "cg_getNode cg1 ''task'' (dc_name c) mk") auto
  define cg3 where "cg3 = addRelation cg2 node ''build'' mk mk"
  have r: "addDependencies K cg3 node (dc_dependencies c) = Inr cg'"
    using assms(1) n by (simp add: addTask_def Let_def cg1_def cg3_def split: Prop.splits)
  have "taskMap cg3 = writeProp (taskMap cg) (dc_name c) m" "serviceMap cg3 = serviceMap cg"
    using cg_getNode_maps [OF n] by (simp_all add: cg3_def cg1_def)
  then have "names_within cg3 S"
    using assms(2,3) by (simp add: names_within_def writeProp_within)
  then show ?thesis using addDependencies_Inr [OF r] by simp
qed

lemma addTest_Inr:
  assumes "addTest K cg m mk c = Inr cg'" and "names_within cg S"
  shows "names_within cg' S \<and> set (dc_dependencies c) \<subseteq> S"
proof -
  define tn where "tn = m_name m @ ''.'' @ dc_name c"
  define cg1 where "cg1 = cg\<lparr> testConfigMap := writeProp (testConfigMap cg) tn c,
                               testConfigModuleMap := writeProp (testConfigModuleMap cg) tn m \<rparr>"
  obtain cg2 node where n: "cg_getNode cg1 ''test'' tn mk = (cg2, node)"
    by (cases "cg_getNode cg1 ''test'' tn mk") auto
  define cg3 where "cg3 = addRelation cg2 node ''build'' mk mk"
  have r: "addDependencies K cg3 node (dc_dependencies c) = Inr cg'"
    using assms(1) n by (simp add: addTest_def Let_def cg1_def cg3_def tn_def)
  have "taskMap cg3 = taskMap cg" "serviceMap cg3 = serviceMap cg"
    using cg_getNode_maps [OF n] by (simp_all add: cg3_def cg1_def)
  then have "names_within cg3 S"
    using assms(2) by (auto simp: names_within_def)
  then show ?thesis using addDependencies_Inr [OF r] by simp
qed

lemma addAll_Inr:
  assumes "addAll f cg xs = Inr cg'" and "I cg"
    and "\<And>cg x cg'. x \<in> set xs \<Longrightarrow> f cg x = Inr cg' \<Longrightarrow> I cg \<Longrightarrow> I cg' \<and> Q x"
  shows "I cg' \<and> (\<forall>x \<in> set xs. Q x)"
  using assms
proof (induction xs arbitrary: cg)
  case Nil
  then show ?case by simp
next
  case (Cons x xs)
  from Cons.prems(1) obtain cg1 where 1: "f cg x = Inr cg1" and 2: "addAll f cg1 xs = Inr cg'"
    by (auto split: sum.splits)
  have 3: "I cg1 \<and> Q x"
    using Cons.prems(3) [of x cg cg1] 1 Cons.prems(2) by simp
  have "I cg' \<and> (\<forall>x \<in> set xs. Q x)"
  proof (rule Cons.IH [OF 2])
    show "I cg1" using 3 by simp
  next
    fix cga xa cga'
    assume "xa \<in> set xs" "f cga xa = Inr cga'" "I cga"
    then show "I cga' \<and> Q xa" using Cons.prems(3) [of xa cga cga'] by simp
  qed
  then show ?case using 3 by simp
qed

lemma fold_addRelation_maps:
  "serviceMap (fold (\<lambda>b cg'. addRelation cg' node t (g b) (g b)) bs cg) = serviceMap cg \<and>
   taskMap (fold (\<lambda>b cg'. addRelation cg' node t (g b) (g b)) bs cg) = taskMap cg"
  by (induction bs arbitrary: cg) simp_all

lemma addModule_Inr:
  assumes "addModule K cg m = Inr cg'" and "names_within cg S" and "set (namesOf m) \<subseteq> S"
  shows "names_within cg' S \<and> set (dependenciesOf m) \<subseteq> S"
proof -
  define mk where "mk = keyForModule K m"
  define cg1 where "cg1 = cg\<lparr> moduleMap := writeProp (moduleMap cg) mk m \<rparr>"
  obtain cg2 node where n: "cg_getNode cg1 ''build'' mk mk = (cg2, node)"
    by (cases "cg_getNode cg1 ''build'' mk mk") auto
  define cg3 where "cg3 = fold (\<lambda>b cg'. addRelation cg' node ''build'' (K (bd_name b) (bd_plugin b)) (K (bd_name b) (bd_plugin b)))
                            (m_buildDependencies m) cg2"
  obtain cg4 cg5 where
    s: "addAll (\<lambda>cg' config. addService K cg' m mk config) cg3 (m_serviceConfigs m) = Inr cg4"
    and t: "addAll (\<lambda>cg' config. addTask K cg' m mk config) cg4 (m_taskConfigs m) = Inr cg5"
    and u: "addAll (\<lambda>cg' config. addTest K cg' m mk config) cg5 (m_testConfigs m) = Inr cg'"
    using assms(1) n
    by (auto simp: addModule_def Let_def mk_def cg1_def cg3_def split: sum.splits)
  have "serviceMap cg3 = serviceMap cg" "taskMap cg3 = taskMap cg"
    using cg_getNode_maps [OF n] fold_addRelation_maps [of node "''build''" "\<lambda>b. K (bd_name b) (bd_plugin b)" "m_buildDependencies m" cg2]
    by (simp_all add: cg3_def cg1_def)
  then have 3: "names_within cg3 S"
    using assms(2) by (simp add: names_within_def)
  have 4: "names_within cg4 S \<and> (\<forall>c \<in> set (m_serviceConfigs m). set (dc_dependencies c) \<subseteq> S)"
  proof (rule addAll_Inr [OF s, where I = "\<lambda>cg. names_within cg S"])
    show "names_within cg3 S" by (rule 3)
  next
    fix cga x cga'
    assume "x \<in> set (m_serviceConfigs m)" "addService K cga m mk x = Inr cga'" "names_within cga S"
    then show "names_within cga' S \<and> set (dc_dependencies x) \<subseteq> S"
      using assms(3) by (intro addService_Inr) (auto simp: namesOf_def)
  qed
  have 5: "names_within cg5 S \<and> (\<forall>c \<in> set (m_taskConfigs m). set (dc_dependencies c) \<subseteq> S)"
  proof (rule addAll_Inr [OF t, where I = "\<lambda>cg. names_within cg S"])
    show "names_within cg4 S" using 4 by simp
  next
    fix cga x cga'
    assume "x \<in> set (m_taskConfigs m)" "addTask K cga m mk x = Inr cga'" "names_within cga S"
    then show "names_within cga' S \<and> set (dc_dependencies x) \<subseteq> S"
      using assms(3) by (intro addTask_Inr) (auto simp: namesOf_def)
  qed
  have 6: "names_within cg' S \<and> (\<forall>c \<in> set (m_testConfigs m). set (dc_dependencies c) \<subseteq> S)"
  proof (rule addAll_Inr [OF u, where I = "\<lambda>cg. names_within cg S"])
    show "names_within cg5 S" using 5 by simp
  next
    fix cga x cga'
    assume "x \<in> set (m_testConfigs m)" "addTest K cga m mk x = Inr cga'" "names_within cga S"
    then show "names_within cga' S \<and> set (dc_dependencies x) \<subseteq> S"
      by (intro addTest_Inr)
  qed
  show ?thesis
    using 4 5 6 by (auto simp: dependenciesOf_def)
qed

lemma ConfigGraph_new_Inr:
  assumes "ConfigGraph_new K modules = Inr cg"
  shows "set (declaredDependencies modules) \<subseteq> set (definedNames modules)"
proof -
  define S where "S = set (definedNames modules)"
  have 0: "names_within ConfigGraph_empty S"
    by (simp add: names_within_def ConfigGraph_empty_def)
  have "names_within cg S \<and> (\<forall>m \<in> set modules. set (dependenciesOf m) \<subseteq> S)"
  proof (rule addAll_Inr [OF assms [unfolded ConfigGraph_new_def], where I = "\<lambda>cg. names_within cg S"])
    show "names_within ConfigGraph_empty S" by (rule 0)
  next
    fix cga x cga'
    assume "x \<in> set modules" "addModule K cga x = Inr cga'" "names_within cga S"
    then show "names_within cga' S \<and> set (dependenciesOf x) \<subseteq> S"
      by (intro addModule_Inr) (auto simp: S_def definedNames_def namesOf_def)
  qed
  then have "\<forall>m \<in> set modules. set (dependenciesOf m) \<subseteq> set (definedNames modules)"
    by (simp add: S_def)
  moreover have "set (declaredDependencies modules) = (\<Union>m \<in> set modules. set (dependenciesOf m))"
    by (simp add: declaredDependencies_def dependenciesOf_def)
  ultimately show ?thesis by blast
qed


lemma addAll_Inl:
  assumes "addAll f cg xs = Inl e" and "\<And>cg x e. f cg x = Inl e \<Longrightarrow> Q e"
  shows "Q e"
  using assms
  by (induction xs arbitrary: cg) (auto split: sum.splits)

lemma addDependencies_thrown: "addDependencies K cg node deps = Inl e \<Longrightarrow> thrown e"
  using addDependencies_Inl [of K cg node deps e True] by (simp add: typeError_thrown)

lemma addService_Inl: "addService K cg m mk c = Inl e \<Longrightarrow> thrown e"
  by (auto simp: addService_def Let_def split: Prop.splits prod.splits
           dest: addDependencies_thrown)
     (auto simp: thrown_def)

lemma addTask_Inl: "addTask K cg m mk c = Inl e \<Longrightarrow> thrown e"
  by (auto simp: addTask_def Let_def split: Prop.splits prod.splits
           dest: addDependencies_thrown)
     (auto simp: thrown_def)

lemma addTest_Inl: "addTest K cg m mk c = Inl e \<Longrightarrow> thrown e"
  by (auto simp: addTest_def Let_def split: prod.splits dest: addDependencies_thrown)

lemma addModule_Inl: "addModule K cg m = Inl e \<Longrightarrow> thrown e"
  unfolding addModule_def Let_def
  by (auto split: sum.splits prod.splits
           dest: addAll_Inl [where Q = thrown, OF _ addService_Inl]
                 addAll_Inl [where Q = thrown, OF _ addTask_Inl]
                 addAll_Inl [where Q = thrown, OF _ addTest_Inl])

lemma ConfigGraph_new_Inl: "ConfigGraph_new K modules = Inl e \<Longrightarrow> thrown e"
  unfolding ConfigGraph_new_def
  by (rule addAll_Inl [where Q = thrown]) (auto dest: addModule_Inl)


lemma names_within_mono: "names_within cg P \<Longrightarrow> P \<subseteq> Q \<Longrightarrow> names_within cg Q"
  by (auto simp: names_within_def)

lemma addService_fresh:
  assumes "names_within cg P" and "dc_name c \<notin> P"
    and "inherited (dc_name c) \<longrightarrow> N" and "\<forall>d \<in> set (dc_dependencies c). inherited d \<longrightarrow> N"
  shows "fresh_step N (\<lambda>cg. addService K cg m mk c) cg (insert (dc_name c) P)"
proof (cases "inherited (dc_name c)")
  case True
  have "dc_name c \<notin> fst ` set (serviceMap cg)"
    using assms(1,2) by (auto simp: names_within_def)
  then have "readProp (serviceMap cg) (dc_name c) = Inherited"
    using True by (simp add: readProp_fresh)
  then have "addService K cg m mk c = Inl undefinedName"
    by (simp add: addService_def Let_def)
  then show ?thesis using True assms(3) by (simp add: fresh_step_def typeError_def)
next
  case False
  have "dc_name c \<notin> fst ` set (serviceMap cg)"
    using assms(1,2) by (auto simp: names_within_def)
  then have none: "readProp (serviceMap cg) (dc_name c) = Undefined"
    using False by (simp add: readProp_fresh)
  define cg1 where "cg1 = cg\<lparr> serviceMap := writeProp (serviceMap cg) (dc_name c) m \<rparr>"
  obtain cg2 node where n: "cg_getNode cg1 ''service'' (dc_name c) mk = (cg2, node)"
    by (cases "cg_getNode cg1 ''service'' (dc_name c) mk") auto
  define cg3 where "cg3 = addRelation cg2 node ''build'' mk mk"
  have r: "addService K cg m mk c = addDependencies K cg3 node (dc_dependencies c)"
    using none n by (simp add: addService_def Let_def cg1_def cg3_def)
  have "serviceMap cg3 = writeProp (serviceMap cg) (dc_name c) m" "taskMap cg3 = taskMap cg"
    using cg_getNode_maps [OF n] by (simp_all add: cg3_def cg1_def)
  then have "names_within cg3 (insert (dc_name c) P)"
    using assms(1) by (simp add: names_within_def writeProp_within subset_insertI2)
  then show ?thesis
    unfolding fresh_step_def r
    using assms(4) by (auto dest: addDependencies_Inl addDependencies_Inr)
qed

lemma addTask_fresh:
  assumes "names_within cg P" and "dc_name c \<notin> P"
    and "inherited (dc_name c) \<longrightarrow> N" and "\<forall>d \<in> set (dc_dependencies c). inherited d \<longrightarrow> N"
  shows "fresh_step N (\<lambda>cg. addTask K cg m mk c) cg (insert (dc_name c) P)"
proof (cases "inherited (dc_name c)")
  case True
  have "dc_name c \<notin> fst ` set (serviceMap cg)"
    using assms(1,2) by (auto simp: names_within_def)
  then have "readProp (serviceMap cg) (dc_name c) = Inherited"
    using True by (simp add: readProp_fresh)
  then have "addTask K cg m mk c = Inl undefinedName"
    by (simp add: addTask_def Let_def)
  then show ?thesis using True assms(3) by (simp add: fresh_step_def typeError_def)
next
  case False
  have "dc_name c \<notin> fst ` set (serviceMap cg)" "dc_name c \<notin> fst ` set (taskMap cg)"
    using assms(1,2) by (auto simp: names_within_def)
  then have none: "readProp (serviceMap cg) (dc_name c) = Undefined"
    "readProp (taskMap cg) (dc_name c) = Undefined"
    using False by (simp_all add: readProp_fresh)
  define cg1 where "cg1 = cg\<lparr> taskMap := writeProp (taskMap cg) (dc_name c) m \<rparr>"
  obtain cg2 node where n: "cg_getNode cg1 ''task'' (dc_name c) mk = (cg2, node)"
    by (cases "cg_getNode cg1 ''task'' (dc_name c) mk") auto
  define cg3 where "cg3 = addRelation cg2 node ''build'' mk mk"
  have r: "addTask K cg m mk c = addDependencies K cg3 node (dc_dependencies c)"
    using none n by (simp add: addTask_def Let_def cg1_def cg3_def)
  have "taskMap cg3 = writeProp (taskMap cg) (dc_name c) m" "serviceMap cg3 = serviceMap cg"
    using cg_getNode_maps [OF n] by (simp_all add: cg3_def cg1_def)
  then have "names_within cg3 (insert (dc_name c) P)"
    using assms(1) by (simp add: names_within_def writeProp_within subset_insertI2)
  then show ?thesis
    unfolding fresh_step_def r
    using assms(4) by (auto dest: addDependencies_Inl addDependencies_Inr)
qed

lemma addTest_fresh:
  assumes "names_within cg P" and "\<forall>d \<in> set (dc_dependencies c). inherited d \<longrightarrow> N"
  shows "fresh_step N (\<lambda>cg. addTest K cg m mk c) cg P"
  unfolding fresh_step_def
proof (intro conjI allI impI)
  fix e assume "addTest K cg m mk c = Inl e"
  then show "typeError N e"
    using assms(2)
    by (auto simp: addTest_def Let_def split: prod.splits dest: addDependencies_Inl)
next
  fix cg' assume "addTest K cg m mk c = Inr cg'"
  then show "names_within cg' P"
    using addTest_Inr assms(1) by blast
qed

lemma addAll_fresh:
  assumes "\<And>cg x P. x \<in> set xs \<Longrightarrow> names_within cg P \<Longrightarrow> nm x \<notin> P \<Longrightarrow>
             fresh_step N (\<lambda>cg. f cg x) cg (insert (nm x) P)"
    and "names_within cg P" and "distinct (map nm xs)" and "nm ` set xs \<inter> P = {}"
  shows "fresh_step N (\<lambda>cg. addAll f cg xs) cg (P \<union> nm ` set xs)"
  using assms
proof (induction xs arbitrary: cg P)
  case Nil
  then show ?case by (simp add: fresh_step_def)
next
  case (Cons x xs)
  have x: "fresh_step N (\<lambda>cg. f cg x) cg (insert (nm x) P)"
    using Cons.prems by (intro Cons.prems(1)) auto
  show ?case
  proof (cases "f cg x")
    case (Inl e)
    then show ?thesis using x by (simp add: fresh_step_def)
  next
    case (Inr cg1)
    then have 1: "names_within cg1 (insert (nm x) P)"
      using x by (simp add: fresh_step_def)
    have "fresh_step N (\<lambda>cg. addAll f cg xs) cg1 (insert (nm x) P \<union> nm ` set xs)"
    proof (rule Cons.IH [OF _ 1])
      show "distinct (map nm xs)" using Cons.prems(3) by simp
      show "nm ` set xs \<inter> insert (nm x) P = {}" using Cons.prems(3,4) by auto
    next
      fix cga xa Pa
      assume "xa \<in> set xs" "names_within cga Pa" "nm xa \<notin> Pa"
      then show "fresh_step N (\<lambda>cg. f cg xa) cga (insert (nm xa) Pa)"
        by (intro Cons.prems(1)) auto
    qed
    then show ?thesis using Inr by (simp add: fresh_step_def)
  qed
qed

lemma addAll_tests_fresh:
  assumes "names_within cg P"
    and "\<forall>c \<in> set xs. \<forall>d \<in> set (dc_dependencies c). inherited d \<longrightarrow> N"
  shows "fresh_step N (\<lambda>cg. addAll (\<lambda>cg' config. addTest K cg' m mk config) cg xs) cg P"
  using assms
proof (induction xs arbitrary: cg)
  case Nil
  then show ?case by (simp add: fresh_step_def)
next
  case (Cons x xs)
  have x: "fresh_step N (\<lambda>cg. addTest K cg m mk x) cg P"
    using Cons.prems by (intro addTest_fresh) simp_all
  show ?case
  proof (cases "addTest K cg m mk x")
    case (Inl e)
    then show ?thesis using x by (simp add: fresh_step_def)
  next
    case (Inr cg1)
    then have "names_within cg1 P" using x by (simp add: fresh_step_def)
    then show ?thesis using Cons.IH [of cg1] Cons.prems(2) Inr by (simp add: fresh_step_def)
  qed
qed

lemma addModule_fresh:
  assumes "names_within cg P" and "distinct (namesOf m)" and "set (namesOf m) \<inter> P = {}"
    and inh: "\<forall>n \<in> set (namesOf m @ dependenciesOf m). inherited n \<longrightarrow> N"
  shows "fresh_step N (\<lambda>cg. addModule K cg m) cg (P \<union> set (namesOf m))"
proof -
  define mk where "mk = keyForModule K m"
  define cg1 where "cg1 = cg\<lparr> moduleMap := writeProp (moduleMap cg) mk m \<rparr>"
  obtain cg2 node where n: "cg_getNode cg1 ''build'' mk mk = (cg2, node)"
    by (cases "cg_getNode cg1 ''build'' mk mk") auto
  define cg3 where "cg3 = fold (\<lambda>b cg'. addRelation cg' node ''build'' (K (bd_name b) (bd_plugin b)) (K (bd_name b) (bd_plugin b)))
                            (m_buildDependencies m) cg2"
  define Ps where "Ps = P \<union> dc_name ` set (m_serviceConfigs m)"
  define Pt where "Pt = Ps \<union> dc_name ` set (m_taskConfigs m)"
  have eq: "addModule K cg m =
      (case addAll (\<lambda>cg' config. addService K cg' m mk config) cg3 (m_serviceConfigs m) of
         Inl e \<Rightarrow> Inl e
       | Inr cg4 \<Rightarrow>
           (case addAll (\<lambda>cg' config. addTask K cg' m mk config) cg4 (m_taskConfigs m) of
              Inl e \<Rightarrow> Inl e
            | Inr cg5 \<Rightarrow> addAll (\<lambda>cg' config. addTest K cg' m mk config) cg5 (m_testConfigs m)))"
    using n unfolding addModule_def Let_def mk_def cg1_def cg3_def by simp
  have "serviceMap cg3 = serviceMap cg" "taskMap cg3 = taskMap cg"
    using cg_getNode_maps [OF n] fold_addRelation_maps [of node "''build''" "\<lambda>b. K (bd_name b) (bd_plugin b)" "m_buildDependencies m" cg2]
    by (simp_all add: cg3_def cg1_def)
  then have 3: "names_within cg3 P"
    using assms(1) by (simp add: names_within_def)
  have inh_s: "inherited (dc_name x) \<longrightarrow> N" "\<forall>d \<in> set (dc_dependencies x). inherited d \<longrightarrow> N"
    if "x \<in> set (m_serviceConfigs m)" for x
    using inh that by (auto simp: namesOf_def dependenciesOf_def)
  have inh_t: "inherited (dc_name x) \<longrightarrow> N" "\<forall>d \<in> set (dc_dependencies x). inherited d \<longrightarrow> N"
    if "x \<in> set (m_taskConfigs m)" for x
    using inh that by (auto simp: namesOf_def dependenciesOf_def)
  have inh_u: "\<forall>c \<in> set (m_testConfigs m). \<forall>d \<in> set (dc_dependencies c). inherited d \<longrightarrow> N"
    using inh by (auto simp: dependenciesOf_def)
  have s: "fresh_step N (\<lambda>cg. addAll (\<lambda>cg' config. addService K cg' m mk config) cg (m_serviceConfigs m)) cg3 Ps"
    unfolding Ps_def
  proof (rule addAll_fresh [OF _ 3])
    show "distinct (map dc_name (m_serviceConfigs m))" using assms(2) by (simp add: namesOf_def)
    show "dc_name ` set (m_serviceConfigs m) \<inter> P = {}" using assms(3) by (auto simp: namesOf_def)
  next
    fix cga Pa and x :: DependencyConfig
    assume "x \<in> set (m_serviceConfigs m)" "names_within cga Pa" "dc_name x \<notin> Pa"
    then show "fresh_step N (\<lambda>cg. addService K cg m mk x) cga (insert (dc_name x) Pa)"
      using inh_s [of x] by (intro addService_fresh) simp_all
  qed
  have t: "names_within cg4 Ps \<Longrightarrow>
      fresh_step N (\<lambda>cg. addAll (\<lambda>cg' config. addTask K cg' m mk config) cg (m_taskConfigs m)) cg4 Pt" for cg4
    unfolding Pt_def
  proof (rule addAll_fresh)
    show "distinct (map dc_name (m_taskConfigs m))" using assms(2) by (simp add: namesOf_def)
    show "dc_name ` set (m_taskConfigs m) \<inter> Ps = {}" using assms(2,3) by (auto simp: namesOf_def Ps_def)
  next
    fix cga Pa and x :: DependencyConfig
    assume "x \<in> set (m_taskConfigs m)" "names_within cga Pa" "dc_name x \<notin> Pa"
    then show "fresh_step N (\<lambda>cg. addTask K cg m mk x) cga (insert (dc_name x) Pa)"
      using inh_t [of x] by (intro addTask_fresh) simp_all
  qed
  have u: "names_within cg5 Pt \<Longrightarrow>
      fresh_step N (\<lambda>cg. addAll (\<lambda>cg' config. addTest K cg' m mk config) cg (m_testConfigs m)) cg5 Pt" for cg5
    using inh_u by (intro addAll_tests_fresh) simp_all
  have Pt: "Pt = P \<union> set (namesOf m)"
    by (auto simp: Pt_def Ps_def namesOf_def)
  show ?thesis
  proof (cases "addAll (\<lambda>cg' config. addService K cg' m mk config) cg3 (m_serviceConfigs m)")
    case (Inl e)
    then show ?thesis using s by (simp add: fresh_step_def eq)
  next
    case s4: (Inr cg4)
    then have n4: "names_within cg4 Ps" using s by (simp add: fresh_step_def)
    show ?thesis
    proof (cases "addAll (\<lambda>cg' config. addTask K cg' m mk config) cg4 (m_taskConfigs m)")
      case (Inl e)
      then show ?thesis using t [OF n4] s4 by (simp add: fresh_step_def eq)
    next
      case t5: (Inr cg5)
      then have n5: "names_within cg5 Pt" using t [OF n4] by (simp add: fresh_step_def)
      show ?thesis
        using u [OF n5] s4 t5 by (simp add: fresh_step_def eq Pt)
    qed
  qed
qed

lemma definedNames_Cons: "definedNames (m # ms) = namesOf m @ definedNames ms"
  by (simp add: definedNames_def namesOf_def)

lemma declaredDependencies_Cons: "declaredDependencies (m # ms) = dependenciesOf m @ declaredDependencies ms"
  by (simp add: declaredDependencies_def dependenciesOf_def)

lemma addAll_modules_fresh:
  assumes "names_within cg P" and "distinct (definedNames ms)" and "set (definedNames ms) \<inter> P = {}"
    and "\<forall>n \<in> set (definedNames ms @ declaredDependencies ms). inherited n \<longrightarrow> N"
  shows "\<forall>e. addAll (addModule K) cg ms = Inl e \<longrightarrow> typeError N e"
  using assms
proof (induction ms arbitrary: cg P)
  case Nil
  then show ?case by simp
next
  case (Cons m ms)
  have d: "distinct (namesOf m)" "set (namesOf m) \<inter> P = {}" "distinct (definedNames ms)"
       "set (definedNames ms) \<inter> (P \<union> set (namesOf m)) = {}"
    using Cons.prems(2,3) unfolding definedNames_Cons by auto
  have i: "\<forall>n \<in> set (namesOf m @ dependenciesOf m). inherited n \<longrightarrow> N"
    "\<forall>n \<in> set (definedNames ms @ declaredDependencies ms). inherited n \<longrightarrow> N"
    using Cons.prems(4) unfolding definedNames_Cons declaredDependencies_Cons by auto
  have m: "fresh_step N (\<lambda>cg. addModule K cg m) cg (P \<union> set (namesOf m))"
    using Cons.prems(1) d(1,2) i(1) by (rule addModule_fresh)
  show ?case
  proof (cases "addModule K cg m")
    case (Inl e)
    then show ?thesis using m by (simp add: fresh_step_def)
  next
    case (Inr cg1)
    then have "names_within cg1 (P \<union> set (namesOf m))" using m by (simp add: fresh_step_def)
    then show ?thesis using Cons.IH [OF _ d(3,4) i(2)] Inr by simp
  qed
qed


lemmas cg_defs = declaredDependencies_def definedNames_def ConfigGraph_new_def ConfigGraph_empty_def
  addModule_def Let_def keyForModule_def sampleModuleKey_def cg_getNode_def nodeKey_def
  addRelation_def addService_def addTask_def addTest_def addDependency_def cn_addDependant_def
  readProp_def writeProp_def objectPrototype_def



section \<open>The task graph: frames and node maps\<close>

lemma emit_frame [simp]:
  "inProgress (emit g e) = inProgress g" "concurrencyLimit (emit g e) = concurrencyLimit g"
  "index (emit g e) = index g" "processing (emit g e) = processing g"
  "resultCache (emit g e) = resultCache g" "dependencies (emit g e) = dependencies g"
  "taskDependencyCache (emit g e) = taskDependencyCache g" "clock (emit g e) = clock g"
  "roots (emit g e) = roots g" "events (emit g e) = events g @ [e]"
  by (simp_all add: emit_def)

lemma tick_frame [simp]:
  "inProgress (tick g t) = inProgress g" "concurrencyLimit (tick g t) = concurrencyLimit g"
  "index (tick g t) = index g" "processing (tick g t) = processing g"
  "resultCache (tick g t) = resultCache g" "dependencies (tick g t) = dependencies g"
  "taskDependencyCache (tick g t) = taskDependencyCache g" "clock (tick g t) = t"
  "roots (tick g t) = roots g" "events (tick g t) = events g"
  by (simp_all add: tick_def)

lemma setDependencies_frame [simp]:
  "inProgress (setDependencies g n ns) = inProgress g"
  "concurrencyLimit (setDependencies g n ns) = concurrencyLimit g"
  "index (setDependencies g n ns) = index g" "processing (setDependencies g n ns) = processing g"
  "resultCache (setDependencies g n ns) = resultCache g"
  "taskDependencyCache (setDependencies g n ns) = taskDependencyCache g"
  "clock (setDependencies g n ns) = clock g" "roots (setDependencies g n ns) = roots g"
  "events (setDependencies g n ns) = events g"
  by (simp_all add: setDependencies_def)

lemma rebuild_fold_frame:
  "same_but_deps g (fold (\<lambda>node g'. setDependencies g' node (F g' node)) xs g)"
  by (induction xs arbitrary: g) (simp_all add: same_but_deps_def)

lemma rebuild_frame [simp]:
  "inProgress (rebuild g) = inProgress g" "concurrencyLimit (rebuild g) = concurrencyLimit g"
  "index (rebuild g) = index g" "processing (rebuild g) = processing g"
  "resultCache (rebuild g) = resultCache g" "taskDependencyCache (rebuild g) = taskDependencyCache g"
  "clock (rebuild g) = clock g" "events (rebuild g) = events g"
  using rebuild_fold_frame [of g "\<lambda>g' node. filter (\<lambda>n. n_baseKey n \<in> set (taskDeps g' node)) (nm_getNodes (index g))" "nm_getNodes (index g)"]
  by (simp_all add: rebuild_def Let_def same_but_deps_def)


subsection \<open>Node maps\<close>

lemma map_of_None_keys: "map_of al k = None \<longleftrightarrow> k \<notin> fst ` set al"
  by (simp add: map_of_eq_None_iff)

lemma update_fresh_append: "k \<notin> fst ` set al \<Longrightarrow> AList.update k v al = al @ [(k, v)]"
  by (induction al) auto

lemma nm_addNode_new:
  assumes "\<not> nm_contains m n"
  shows "nm_index (nm_addNode m n) = nm_index m @ [(n_key n, n)]"
    and "nm_length (nm_addNode m n) = nm_length m + 1"
  using assms
  by (simp_all add: nm_addNode_def nm_contains_def nm_getNode_def Let_def update_fresh_append
        map_of_None_keys)

lemma nm_addNode_old:
  assumes "nm_contains m n"
  shows "nm_addNode m n = m"
  using assms by (auto simp: nm_addNode_def nm_contains_def nm_getNode_def Let_def)

lemma nm_addNode_ok: "nm_ok m \<Longrightarrow> nm_ok (nm_addNode m n)"
proof (cases "nm_contains m n")
  case True
  then show "nm_ok m \<Longrightarrow> nm_ok (nm_addNode m n)" by (simp add: nm_addNode_old)
next
  case False
  then have "n_key n \<notin> fst ` set (nm_index m)"
    by (simp add: nm_contains_def map_of_None_keys)
  then show "nm_ok m \<Longrightarrow> nm_ok (nm_addNode m n)"
    using nm_addNode_new [OF False] by (auto simp: nm_ok_def)
qed

lemma delete_filter: "AList.delete k al = filter (\<lambda>p. fst p \<noteq> k) al"
  by (induction al) auto

lemma nm_removeNode_index:
  "nm_index (nm_removeNode m n) = filter (\<lambda>p. fst p \<noteq> n_key n) (nm_index m)"
proof (cases "map_of (nm_index m) (n_key n)")
  case None
  then have "n_key n \<notin> fst ` set (nm_index m)" by (simp add: map_of_None_keys)
  then have "filter (\<lambda>p. fst p \<noteq> n_key n) (nm_index m) = nm_index m"
    by (intro filter_True) (auto intro: rev_image_eqI)
  then show ?thesis using None by (simp add: nm_removeNode_def)
next
  case (Some a)
  then show ?thesis by (simp add: nm_removeNode_def delete_filter)
qed

lemma distinct_filter_one:
  "distinct (map fst al) \<Longrightarrow> k \<in> fst ` set al \<Longrightarrow>
     length (filter (\<lambda>p. fst p \<noteq> k) al) = length al - 1"
proof (induction al)
  case Nil
  then show ?case by simp
next
  case (Cons a al)
  show ?case
  proof (cases "fst a = k")
    case True
    then have "k \<notin> fst ` set al" using Cons.prems(1) by auto
    then have "filter (\<lambda>p. fst p \<noteq> k) al = al" by (intro filter_True) (auto intro: rev_image_eqI)
    then show ?thesis using True by simp
  next
    case False
    then have "k \<in> fst ` set al" using Cons.prems(2) by auto
    then have "al \<noteq> []" by auto
    then show ?thesis using False Cons \<open>k \<in> fst ` set al\<close> by (cases al) auto
  qed
qed

lemma nm_removeNode_ok: "nm_ok m \<Longrightarrow> nm_ok (nm_removeNode m n)"
proof (cases "map_of (nm_index m) (n_key n)")
  case None
  then show "nm_ok m \<Longrightarrow> nm_ok (nm_removeNode m n)" by (simp add: nm_removeNode_def)
next
  case (Some a)
  assume ok: "nm_ok m"
  have k: "n_key n \<in> fst ` set (nm_index m)"
    using Some by (metis map_of_None_keys option.distinct(1))
  then have ne: "nm_index m \<noteq> []" by auto
  have "length (filter (\<lambda>p. fst p \<noteq> n_key n) (nm_index m)) = length (nm_index m) - 1"
    using ok k by (intro distinct_filter_one) (simp_all add: nm_ok_def)
  moreover have "nm_length (nm_removeNode m n) = nm_length m - 1"
    using Some by (simp add: nm_removeNode_def)
  ultimately show "nm_ok (nm_removeNode m n)"
    using ok ne unfolding nm_ok_def nm_removeNode_index
    by (auto simp: distinct_map_filter of_nat_diff Suc_leI)
qed

lemma nm_removeNode_length: "nm_ok m \<Longrightarrow> nm_length (nm_removeNode m n) \<le> nm_length m"
  by (simp add: nm_removeNode_def)

lemma nm_removeNode_nodes:
  "nm_ok m \<Longrightarrow> nm_getNodes (nm_removeNode m n) = filter (\<lambda>x. n_key x \<noteq> n_key n) (nm_getNodes m)"
proof -
  assume "nm_ok m"
  then have "\<forall>p \<in> set (nm_index m). (fst p \<noteq> n_key n) = (n_key (snd p) \<noteq> n_key n)"
    by (simp add: nm_ok_def)
  then have "filter (\<lambda>p. fst p \<noteq> n_key n) (nm_index m) = filter (\<lambda>p. n_key (snd p) \<noteq> n_key n) (nm_index m)"
    by (intro filter_cong) auto
  then show ?thesis
    by (simp add: nm_getNodes_def nm_removeNode_index filter_map comp_def)
qed

section \<open>The concurrency ceilings\<close>

lemma processTask_frame [simp]:
  "inProgress (processTask g n t) = inProgress g" "concurrencyLimit (processTask g n t) = concurrencyLimit g"
  "index (processTask g n t) = index g" "resultCache (processTask g n t) = resultCache g"
  "dependencies (processTask g n t) = dependencies g"
  "taskDependencyCache (processTask g n t) = taskDependencyCache g" "clock (processTask g n t) = clock g"
  "roots (processTask g n t) = roots g" "events (processTask g n t) = events g"
  by (simp_all add: processTask_def Let_def)

lemma fold_processTask_frame [simp]:
  "inProgress (fold (\<lambda>node g'. processTask g' node t) ns g) = inProgress g"
  "concurrencyLimit (fold (\<lambda>node g'. processTask g' node t) ns g) = concurrencyLimit g"
  "index (fold (\<lambda>node g'. processTask g' node t) ns g) = index g"
  "resultCache (fold (\<lambda>node g'. processTask g' node t) ns g) = resultCache g"
  "dependencies (fold (\<lambda>node g'. processTask g' node t) ns g) = dependencies g"
  "taskDependencyCache (fold (\<lambda>node g'. processTask g' node t) ns g) = taskDependencyCache g"
  "clock (fold (\<lambda>node g'. processTask g' node t) ns g) = clock g"
  "events (fold (\<lambda>node g'. processTask g' node t) ns g) = events g"
  by (induction ns arbitrary: g) simp_all

lemma ceiling_ok_cong:
  "inProgress g' = inProgress g \<Longrightarrow> concurrencyLimit g' = concurrencyLimit g \<Longrightarrow>
     ceiling_ok g' = ceiling_ok g"
  by (simp add: ceiling_ok_def inProgressOf_def)

lemma typeLimit_None:
  "typeLimit node = None \<Longrightarrow> 0 < k \<Longrightarrow>
     \<not> (t_concurrencyLimit (n_task node) = Some k \<and> \<not> sameTypeParent node)"
  by (auto simp: typeLimit_def split: option.splits if_splits)

lemma typeLimit_Some:
  "typeLimit node = Some k' \<Longrightarrow> t_concurrencyLimit (n_task node) = Some k \<Longrightarrow> k = k'"
  by (auto simp: typeLimit_def split: option.splits if_splits)

lemma length_filter_conj: "length (filter (\<lambda>n. P n \<and> Q n) xs) \<le> length (filter P xs)"
  by (induction xs) auto

lemma ceiling_ok_add:
  assumes ok: "ceiling_ok g"
    and room: "\<not> nm_length (inProgress g) \<ge> int (concurrencyLimit g)"
    and new: "\<not> nm_contains (inProgress g) node"
    and lim: "case typeLimit node of None \<Rightarrow> True
              | Some k \<Rightarrow> \<not> length (filter (\<lambda>n. n_type n = n_type node) (nm_getNodes (inProgress g))) \<ge> k"
  shows "ceiling_ok (g\<lparr> inProgress := nm_addNode (inProgress g) node \<rparr>)"
proof -
  let ?g = "g\<lparr> inProgress := nm_addNode (inProgress g) node \<rparr>"
  have nodes: "nm_getNodes (nm_addNode (inProgress g) node) = nm_getNodes (inProgress g) @ [node]"
    using nm_addNode_new(1) [OF new] by (simp add: nm_getNodes_def)
  have len: "nm_length (nm_addNode (inProgress g) node) = nm_length (inProgress g) + 1"
    using nm_addNode_new(2) [OF new] by simp
  have 1: "nm_ok (inProgress ?g)"
    using ok by (simp add: ceiling_ok_def nm_addNode_ok)
  have 2: "nm_length (inProgress ?g) \<le> int (concurrencyLimit ?g)"
    using room len by simp
  have 3: "length (inProgressOf ?g t k) \<le> k" if k: "0 < k" for t k
  proof (cases "n_type node = t \<and> t_concurrencyLimit (n_task node) = Some k \<and> \<not> sameTypeParent node")
    case True
    then have "typeLimit node = Some k"
      using k by (simp add: typeLimit_def)
    then have "length (filter (\<lambda>n. n_type n = t) (nm_getNodes (inProgress g))) < k"
      using lim True by simp
    moreover have "length (inProgressOf g t k) \<le> length (filter (\<lambda>n. n_type n = t) (nm_getNodes (inProgress g)))"
      unfolding inProgressOf_def by (rule length_filter_conj)
    ultimately show ?thesis
      using True by (simp add: inProgressOf_def nodes)
  next
    case False
    then have "inProgressOf ?g t k = inProgressOf g t k"
      by (auto simp: inProgressOf_def nodes)
    then show ?thesis using ok k by (simp add: ceiling_ok_def)
  qed
  show ?thesis
    unfolding ceiling_ok_def using 1 2 3 by blast
qed

lemma loop_roots_ceiling:
  "ceiling_ok g \<Longrightarrow> ceiling_ok (fst (loop_roots g ns batch))"
proof (induction g ns batch rule: loop_roots.induct)
  case (1 g batch)
  then show ?case by simp
next
  case (2 g node rest batch)
  show ?case
  proof (cases "nm_length (inProgress g) \<ge> int (concurrencyLimit g)")
    case True
    then show ?thesis using "2.prems" by simp
  next
    case room: False
    show ?thesis
    proof (cases "nm_contains (inProgress g) node")
      case True
      then show ?thesis using "2.IH"(1) [OF room True] "2.prems" room by simp
    next
      case new: False
      show ?thesis
      proof (cases "typeLimit node")
        case None
        have "ceiling_ok (g\<lparr> inProgress := nm_addNode (inProgress g) node \<rparr>)"
          using "2.prems" room new None by (intro ceiling_ok_add) simp_all
        then show ?thesis
          using "2.IH"(2) [OF room new None] room new None by simp
      next
        case (Some k)
        show ?thesis
        proof (cases "length (filter (\<lambda>n. n_type n = n_type node) (nm_getNodes (inProgress g))) \<ge> k")
          case True
          then show ?thesis
            using "2.IH"(3) [OF room new Some refl True] "2.prems" room new Some by simp
        next
          case False
          have "ceiling_ok (g\<lparr> inProgress := nm_addNode (inProgress g) node \<rparr>)"
            using "2.prems" room new Some False by (intro ceiling_ok_add) simp_all
          then show ?thesis
            using "2.IH"(4) [OF room new Some refl False] room new Some False by simp
        qed
      qed
    qed
  qed
qed

lemma loop_roots_frame:
  "concurrencyLimit (fst (loop_roots g ns batch)) = concurrencyLimit g \<and>
   index (fst (loop_roots g ns batch)) = index g \<and>
   processing (fst (loop_roots g ns batch)) = processing g \<and>
   resultCache (fst (loop_roots g ns batch)) = resultCache g \<and>
   dependencies (fst (loop_roots g ns batch)) = dependencies g \<and>
   taskDependencyCache (fst (loop_roots g ns batch)) = taskDependencyCache g \<and>
   clock (fst (loop_roots g ns batch)) = clock g \<and>
   events (fst (loop_roots g ns batch)) = events g \<and>
   roots (fst (loop_roots g ns batch)) = roots g"
  by (induction g ns batch rule: loop_roots.induct) (simp_all add: Let_def split: option.splits)

lemma loop_ceiling: "ceiling_ok g \<Longrightarrow> ceiling_ok (loop g now)"
proof -
  assume ok: "ceiling_ok g"
  show ?thesis
  proof (cases "nm_length (index g) = 0")
    case True
    have "ceiling_ok (emit g (TaskGraphComplete now)) = ceiling_ok g"
      by (rule ceiling_ok_cong) simp_all
    then show ?thesis using ok True by (simp add: loop_def)
  next
    case False
    define g2 where "g2 = rebuild (emit g (TaskGraphProcessing now))"
    have "ceiling_ok g2 = ceiling_ok g"
      unfolding g2_def by (rule ceiling_ok_cong) simp_all
    then have "ceiling_ok g2" using ok by simp
    then have c: "ceiling_ok (fst (loop_roots g2 (nm_getNodes (roots g2)) []))"
      by (rule loop_roots_ceiling)
    obtain g3 b where r: "loop_roots g2 (nm_getNodes (roots g2)) [] = (g3, b)"
      by (cases "loop_roots g2 (nm_getNodes (roots g2)) []") auto
    have "loop g now = (case b of None \<Rightarrow> g3 | Some batch \<Rightarrow> fold (\<lambda>node g'. processTask g' node now) batch g3)"
      using False r by (simp add: loop_def Let_def g2_def)
    moreover have "ceiling_ok g3" using c r by simp
    moreover have "ceiling_ok (fold (\<lambda>node g'. processTask g' node now) batch g3) = ceiling_ok g3" for batch
      by (rule ceiling_ok_cong) simp_all
    ultimately show ?thesis
      by (cases b) simp_all
  qed
qed

lemma remove_frame [simp]:
  "concurrencyLimit (remove g n) = concurrencyLimit g" "processing (remove g n) = processing g"
  "resultCache (remove g n) = resultCache g" "dependencies (remove g n) = dependencies g"
  "taskDependencyCache (remove g n) = taskDependencyCache g" "clock (remove g n) = clock g"
  "roots (remove g n) = roots g" "events (remove g n) = events g"
  "inProgress (remove g n) = nm_removeNode (inProgress g) n"
  "index (remove g n) = nm_removeNode (index g) n"
  by (simp_all add: remove_def)

lemma length_filter_conj2: "length (filter (\<lambda>n. Q n \<and> P n) xs) \<le> length (filter P xs)"
  by (induction xs) auto

lemma remove_ceiling:
  assumes "ceiling_ok g"
  shows "ceiling_ok (remove g n)"
proof -
  have ok: "nm_ok (inProgress g)" using assms by (simp add: ceiling_ok_def)
  have le: "length (inProgressOf (remove g n) t k) \<le> length (inProgressOf g t k)" for t k
    unfolding inProgressOf_def remove_frame nm_removeNode_nodes [OF ok] filter_filter
    by (rule length_filter_conj2)
  have "length (inProgressOf (remove g n) t k) \<le> k" if "0 < k" for t k
    using le [of t k] assms that unfolding ceiling_ok_def by (meson order_trans)
  moreover have "nm_length (nm_removeNode (inProgress g) n) \<le> nm_length (inProgress g)"
    using ok by (rule nm_removeNode_length)
  ultimately show ?thesis
    using assms unfolding ceiling_ok_def
    by (simp add: nm_removeNode_ok)
qed

lemma fold_remove_ceiling:
  "ceiling_ok g \<Longrightarrow> ceiling_ok (fold (\<lambda>dependant g'. remove g' dependant) ds g)"
  by (induction ds arbitrary: g) (simp_all add: remove_ceiling)

lemma settle_ceiling:
  assumes "ceiling_ok g"
  shows "ceiling_ok (fst (settle g node result now))"
proof -
  define g1 where "g1 = g\<lparr> resultCache := put (resultCache g) result \<rparr>"
  have 1: "ceiling_ok g1"
    using assms by (simp add: g1_def ceiling_ok_def inProgressOf_def)
  show ?thesis
  proof (cases "completeTask g1 node")
    case (Inl e)
    then show ?thesis using 1 by (simp add: settle_def g1_def)
  next
    case (Inr g2)
    then have "g2 = remove g1 node"
      by (auto simp: completeTask_def split: if_splits)
    then have "ceiling_ok (loop g2 now)"
      using 1 by (simp add: remove_ceiling loop_ceiling)
    then show ?thesis using Inr by (simp add: settle_def g1_def)
  qed
qed

lemma settled_ceiling: "ceiling_ok (settled g node result) = ceiling_ok g"
  by (rule ceiling_ok_cong) (simp_all add: settled_def)

lemma process_resolved_ceiling:
  assumes "ceiling_ok g"
  shows "ceiling_ok (fst (process_resolved g node result out now))"
proof -
  have "ceiling_ok (emit (settled g node result) e) = ceiling_ok (settled g node result)" for e
    by (rule ceiling_ok_cong) simp_all
  then show ?thesis
    using assms by (simp add: process_resolved_def Let_def settle_ceiling settled_ceiling)
qed

lemma process_rejected_ceiling:
  assumes "ceiling_ok g" and "process_rejected fuel g node result err now = Some (g', e)"
  shows "ceiling_ok g'"
proof -
  obtain ds where ds: "getDependants fuel (settled g node result) node = Some ds"
    using assms(2) by (auto simp: process_rejected_def cancelDependants_def Let_def split: option.splits)
  define g1 where "g1 = rebuild (fold (\<lambda>dependant g'. remove g' dependant) ds (settled g node result))"
  have "ceiling_ok (fold (\<lambda>dependant g'. remove g' dependant) ds (settled g node result))"
    using assms(1) by (intro fold_remove_ceiling) (simp add: settled_ceiling)
  moreover have "ceiling_ok g1 = ceiling_ok (fold (\<lambda>dependant g'. remove g' dependant) ds (settled g node result))"
    unfolding g1_def by (rule ceiling_ok_cong) simp_all
  moreover have "ceiling_ok (emit g1 ev) = ceiling_ok g1" for ev
    by (rule ceiling_ok_cong) simp_all
  ultimately have "ceiling_ok (fst (settle (emit g1 (TaskError (setError result err now))) node (setError result err now) now))"
    by (intro settle_ceiling) simp
  moreover have "g' = fst (settle (emit g1 (TaskError (setError result err now))) node (setError result err now) now)"
    using assms(2) ds by (simp add: process_rejected_def cancelDependants_def Let_def g1_def)
  ultimately show ?thesis by simp
qed

lemma index_addNode_frame [simp]:
  "inProgress (index_addNode g n) = inProgress g" "concurrencyLimit (index_addNode g n) = concurrencyLimit g"
  "processing (index_addNode g n) = processing g" "resultCache (index_addNode g n) = resultCache g"
  "clock (index_addNode g n) = clock g" "events (index_addNode g n) = events g"
  by (simp_all add: index_addNode_def)

lemma addNode_task_frame:
  "inProgress (fst (addNode_task g task)) = inProgress g \<and>
   concurrencyLimit (fst (addNode_task g task)) = concurrencyLimit g \<and>
   processing (fst (addNode_task g task)) = processing g \<and>
   resultCache (fst (addNode_task g task)) = resultCache g \<and>
   clock (fst (addNode_task g task)) = clock g \<and>
   events (fst (addNode_task g task)) = events g"
  by (simp add: addNode_task_def split: option.splits prod.splits)

lemma same_run_refl [simp]: "same_run g g"
  by (simp add: same_run_def)

lemma same_run_trans: "same_run g g1 \<Longrightarrow> same_run g1 g2 \<Longrightarrow> same_run g g2"
  by (simp add: same_run_def)

lemma fold_option_same_run:
  assumes "\<And>g x g'. x \<in> set xs \<Longrightarrow> f g x = Some g' \<Longrightarrow> same_run g g'"
  shows "fold (\<lambda>x r. case r of None \<Rightarrow> None | Some g' \<Rightarrow> f g' x) xs (Some g) = Some g' \<Longrightarrow> same_run g g'"
  using assms
proof (induction xs arbitrary: g)
  case Nil
  then show ?case by simp
next
  case (Cons x xs)
  show ?case
  proof (cases "f g x")
    case None
    have "fold (\<lambda>x r. case r of None \<Rightarrow> None | Some g' \<Rightarrow> f g' x) xs None = None"
      by (induction xs) simp_all
    then show ?thesis using Cons.prems(1) None by simp
  next
    case (Some g1)
    then have 1: "same_run g g1" using Cons.prems(2) [of x g g1] by simp
    have "same_run g1 g'"
    proof (rule Cons.IH)
      show "fold (\<lambda>x r. case r of None \<Rightarrow> None | Some g' \<Rightarrow> f g' x) xs (Some g1) = Some g'"
        using Cons.prems(1) Some by simp
      fix ga xa ga'
      assume "xa \<in> set xs" "f ga xa = Some ga'"
      then show "same_run ga ga'"
        by (intro Cons.prems(2) [of xa ga ga']) simp_all
    qed
    then show ?thesis using 1 by (rule same_run_trans [rotated])
  qed
qed

lemma addNodeWithDependencies_frame:
  "addNodeWithDependencies fuel g task = Some g' \<Longrightarrow> same_run g g'"
proof (induction fuel arbitrary: g task g')
  case 0
  then show ?case by simp
next
  case (Suc fuel)
  obtain g1 r where a: "addNode_task g task = (g1, r)"
    by (cases "addNode_task g task") auto
  have 1: "same_run g g1"
    using addNode_task_frame [of g task] a by (simp add: same_run_def)
  show ?case
  proof (cases r)
    case None
    then show ?thesis using Suc.prems a 1 by simp
  next
    case (Some node)
    define g2 where "g2 = g1\<lparr> taskDependencyCache :=
        (taskDependencyCache g1)(n_key node \<mapsto> map t_baseKey (t_dependencies (n_task node))) \<rparr>"
    have 2: "same_run g1 g2" by (simp add: same_run_def g2_def)
    have "fold (\<lambda>dep r. case r of None \<Rightarrow> None | Some g' \<Rightarrow> addNodeWithDependencies fuel g' dep)
            (t_dependencies (n_task node)) (Some g2) = Some g'"
      using Suc.prems a Some by (simp add: Let_def g2_def)
    then have "same_run g2 g'"
      by (rule fold_option_same_run [rotated]) (rule Suc.IH)
    then show ?thesis using 1 2 by (blast intro: same_run_trans)
  qed
qed

lemma addTaskInternal_ceiling:
  assumes "ceiling_ok g" and "addTaskInternal fuel g task now = Some g'"
  shows "ceiling_ok g'"
proof -
  obtain g1 where 1: "addNodeWithDependencies fuel (emit g (TaskPending now (t_key task) (t_versionString task))) task = Some g1"
    and 2: "g' = rebuild g1"
    using assms(2) by (auto simp: addTaskInternal_def split: option.splits)
  have "same_run (emit g (TaskPending now (t_key task) (t_versionString task))) g1"
    using 1 by (rule addNodeWithDependencies_frame)
  then have "ceiling_ok g' = ceiling_ok g"
    unfolding 2 by (intro ceiling_ok_cong) (simp_all add: same_run_def)
  then show ?thesis using assms(1) by simp
qed

lemma TaskGraph_new_ceiling: "ceiling_ok (TaskGraph_new limit)"
  by (simp add: ceiling_ok_def TaskGraph_new_def TaskNodeMap_new_def nm_ok_def inProgressOf_def
        nm_getNodes_def)

lemma tick_ceiling: "ceiling_ok (tick g now) = ceiling_ok g"
  by (rule ceiling_ok_cong) simp_all

lemma addNodes_frame [simp]:
  "inProgress (fst (addNodes g ns)) = inProgress g"
  "concurrencyLimit (fst (addNodes g ns)) = concurrencyLimit g"
  "processing (fst (addNodes g ns)) = processing g"
  "resultCache (fst (addNodes g ns)) = resultCache g"
  "clock (fst (addNodes g ns)) = clock g"
  "events (fst (addNodes g ns)) = events g"
  by (induction g ns rule: addNodes.induct; simp split: option.splits)+

lemma addNodes_index_ok: "nm_ok (index g) \<Longrightarrow> nm_ok (index (fst (addNodes g ns)))"
  by (induction g ns rule: addNodes.induct) (simp_all add: nm_addNode_ok split: option.splits)

lemma process_ceiling: "ceiling_ok (fst (process g tasks parent)) = ceiling_ok g"
  by (rule ceiling_ok_cong) (simp_all add: process_def)

lemma step_ceiling:
  assumes "step g now g'" and "ceiling_ok g"
  shows "ceiling_ok g'"
  using assms
proof (induction rule: step.induct)
  case (process g now tasks parent)
  then show ?case by (simp add: process_ceiling tick_ceiling)
next
  case (add fuel g now task g')
  have "ceiling_ok (tick g now)" using add by (simp add: tick_ceiling)
  then show ?case using add by (blast intro: addTaskInternal_ceiling)
next
  case (loop g now)
  then show ?case by (simp add: loop_ceiling tick_ceiling)
next
  case (resolved node result g now out)
  then show ?case by (simp add: process_resolved_ceiling tick_ceiling)
next
  case (rejected node result g fuel now err g' e)
  have "ceiling_ok (tick g now)" using rejected by (simp add: tick_ceiling)
  then show ?case using rejected by (blast intro: process_rejected_ceiling)
qed

lemma reachable_ceiling: "reachable g \<Longrightarrow> ceiling_ok g"
proof (induction rule: reachable.induct)
  case (new limit)
  show ?case by (rule TaskGraph_new_ceiling)
next
  case (step g now g')
  then show ?case by (blast intro: step_ceiling)
qed


section \<open>The run of two tasks\<close>

lemma addTaskInternal_frame:
  assumes "addTaskInternal fuel g task now = Some g'"
  shows "inProgress g' = inProgress g" and "concurrencyLimit g' = concurrencyLimit g"
    and "processing g' = processing g" and "resultCache g' = resultCache g"
    and "clock g' = clock g"
    and "events g' = events g @ [TaskPending now (t_key task) (t_versionString task)]"
proof -
  obtain g1 where 1: "addNodeWithDependencies fuel (emit g (TaskPending now (t_key task) (t_versionString task))) task = Some g1"
    and 2: "g' = rebuild g1"
    using assms by (auto simp: addTaskInternal_def split: option.splits)
  have s: "same_run (emit g (TaskPending now (t_key task) (t_versionString task))) g1"
    using 1 by (rule addNodeWithDependencies_frame)
  show "inProgress g' = inProgress g" "concurrencyLimit g' = concurrencyLimit g"
    "processing g' = processing g" "resultCache g' = resultCache g" "clock g' = clock g"
    "events g' = events g @ [TaskPending now (t_key task) (t_versionString task)]"
    using s unfolding 2 by (simp_all add: same_run_def)
qed

lemmas run_defs = loop_def tick_def emit_def rebuild_def Let_def setDependencies_def
  nm_getNode_def nm_addNode_def nm_removeNode_def nm_setNodes_def nm_getNodes_def nm_contains_def
  nm_clear_def TaskNodeMap_new_def taskDeps_def getDependencies_def typeLimit_def
  sameTypeParent_def processTask_def pick_def addTaskInternal_def addNode_task_def getNode_def
  existingNode_def get_def index_addNode_def TaskNode_new_def TaskGraph_new_def
  ResultCache_new_def orElse_def run0_def inProgressOf_def eval_nat_numeral

lemma orElse_Some: "r \<noteq> None \<Longrightarrow> r = Some (orElse r d)"
  by (cases r) (simp_all add: orElse_def)

lemma run1_added: "addTaskInternal 3 (tick run0 1) task_b 1 = Some run1"
  unfolding run1_def by (rule orElse_Some) (simp add: task_a_def task_b_def run_defs)

lemma zero1_added: "addTaskInternal 2 (tick run0 1) task_z 1 = Some zero1"
  unfolding zero1_def by (rule orElse_Some) (simp add: task_z_def run_defs)

lemma reachable_run1: "reachable run1"
  using reachable.step [OF reachable.new _ step.add, of 2 1 3 task_b run1] run1_added
  by (simp add: run0_def TaskGraph_new_def)

lemma run1_frame: "clock run1 = 1" "processing run1 = []"
  using addTaskInternal_frame [OF run1_added] by (simp_all add: run0_def TaskGraph_new_def)

lemma step_run2: "step run1 2 run2"
  unfolding run2_def by (rule step.loop)

lemma reachable_run2: "reachable run2"
  using reachable_run1 _ step_run2 by (rule reachable.step) (simp add: run1_frame)

lemma reachable_zero1: "reachable zero1"
  using reachable.step [OF reachable.new _ step.add, of 2 1 2 task_z zero1] zero1_added
  by (simp add: run0_def TaskGraph_new_def)

lemma reachable_zero2: "reachable zero2"
  unfolding zero2_def
proof (rule reachable.step [OF reachable_zero1 _ step.loop])
  show "clock zero1 \<le> 2"
    using addTaskInternal_frame(5) [OF zero1_added] by simp
qed

lemmas settle_defs = process_resolved_def settled_def setOutput_def settle_def put_def
  completeTask_def remove_def MAX_CACHE_SIZE_def

lemmas run_inputs = task_a_def task_b_def node_a_def node_b_def result_a_def result_b_def

lemma run1_eq:
  "run1 =
     \<lparr>roots = \<lparr>nm_index = [(''build.a.v1'', node_a)], nm_length = 1\<rparr>,
      index = \<lparr>nm_index = [(''deploy.b.v1'', node_b), (''build.a.v1'', node_a)], nm_length = 2\<rparr>,
      inProgress = TaskNodeMap_new,
      taskDependencyCache = [''deploy.b.v1'' \<mapsto> [''build.a''], ''build.a.v1'' \<mapsto> []],
      resultCache = ResultCache_new, concurrencyLimit = 2,
      dependencies = (\<lambda>k. TaskNodeMap_new)
        (''deploy.b.v1'' := \<lparr>nm_index = [(''build.a.v1'', node_a)], nm_length = 1\<rparr>,
         ''build.a.v1'' := TaskNodeMap_new),
      events = [TaskPending 1 ''deploy.b.v1'' ''v1''], processing = [], clock = 1\<rparr>"
  by (simp add: run1_def run_inputs run_defs)

lemma run2_eq:
  "run2 =
     \<lparr>roots = \<lparr>nm_index = [(''build.a.v1'', node_a)], nm_length = 1\<rparr>,
      index = \<lparr>nm_index = [(''deploy.b.v1'', node_b), (''build.a.v1'', node_a)], nm_length = 2\<rparr>,
      inProgress = \<lparr>nm_index = [(''build.a.v1'', node_a)], nm_length = 1\<rparr>,
      taskDependencyCache = [''deploy.b.v1'' \<mapsto> [''build.a''], ''build.a.v1'' \<mapsto> []],
      resultCache = ResultCache_new, concurrencyLimit = 2,
      dependencies = (\<lambda>k. TaskNodeMap_new)
        (''deploy.b.v1'' := \<lparr>nm_index = [(''build.a.v1'', node_a)], nm_length = 1\<rparr>,
         ''build.a.v1'' := TaskNodeMap_new),
      events = [TaskPending 1 ''deploy.b.v1'' ''v1'', TaskGraphProcessing 2],
      processing = [(node_a, result_a)], clock = 2\<rparr>"
  unfolding run2_def run1_eq by (simp add: run_inputs run_defs)

lemma run3_eq:
  "run3 =
     \<lparr>roots = \<lparr>nm_index = [(''deploy.b.v1'', node_b)], nm_length = 1\<rparr>,
      index = \<lparr>nm_index = [(''deploy.b.v1'', node_b)], nm_length = 1\<rparr>,
      inProgress = \<lparr>nm_index = [(''deploy.b.v1'', node_b)], nm_length = 1\<rparr>,
      taskDependencyCache = [''deploy.b.v1'' \<mapsto> [''build.a''], ''build.a.v1'' \<mapsto> []],
      resultCache = \<lparr>cache = [(''build.a.v1'', setOutput result_a ''built'' 3)], cache_length = 1\<rparr>,
      concurrencyLimit = 2,
      dependencies = (\<lambda>k. TaskNodeMap_new)
        (''build.a.v1'' := TaskNodeMap_new, ''deploy.b.v1'' := TaskNodeMap_new),
      events = [TaskPending 1 ''deploy.b.v1'' ''v1'', TaskGraphProcessing 2,
                TaskComplete (setOutput result_a ''built'' 3), TaskGraphProcessing 3],
      processing = [(node_b, result_b)], clock = 3\<rparr>"
  unfolding run3_def run2_eq by (simp add: run_inputs run_defs settle_defs)

lemma run4_eq:
  "run4 =
     \<lparr>roots = \<lparr>nm_index = [(''deploy.b.v1'', node_b)], nm_length = 1\<rparr>,
      index = TaskNodeMap_new, inProgress = TaskNodeMap_new,
      taskDependencyCache = [''deploy.b.v1'' \<mapsto> [''build.a''], ''build.a.v1'' \<mapsto> []],
      resultCache = \<lparr>cache = [(''build.a.v1'', setOutput result_a ''built'' 3),
                                (''deploy.b.v1'', setOutput result_b ''deployed'' 4)],
                      cache_length = 2\<rparr>,
      concurrencyLimit = 2,
      dependencies = (\<lambda>k. TaskNodeMap_new)
        (''build.a.v1'' := TaskNodeMap_new, ''deploy.b.v1'' := TaskNodeMap_new),
      events = [TaskPending 1 ''deploy.b.v1'' ''v1'', TaskGraphProcessing 2,
                TaskComplete (setOutput result_a ''built'' 3), TaskGraphProcessing 3,
                TaskComplete (setOutput result_b ''deployed'' 4), TaskGraphComplete 4],
      processing = [], clock = 4\<rparr>"
  unfolding run4_def run3_eq by (simp add: run_inputs run_defs settle_defs)

lemma zero2_eq:
  "zero2 =
     \<lparr>roots = \<lparr>nm_index = [(''test.z.v1'', TaskNode_new task_z None)], nm_length = 1\<rparr>,
      index = \<lparr>nm_index = [(''test.z.v1'', TaskNode_new task_z None)], nm_length = 1\<rparr>,
      inProgress = \<lparr>nm_index = [(''test.z.v1'', TaskNode_new task_z None)], nm_length = 1\<rparr>,
      taskDependencyCache = [''test.z.v1'' \<mapsto> []],
      resultCache = ResultCache_new, concurrencyLimit = 2,
      dependencies = (\<lambda>k. TaskNodeMap_new)(''test.z.v1'' := TaskNodeMap_new),
      events = [TaskPending 1 ''test.z.v1'' ''v1'', TaskGraphProcessing 2],
      processing = [(TaskNode_new task_z None,
                     TaskResult ''test.z'' ''test.z.v1'' ''3'' ''{}'' ''test'' ''testing z'' None []
                       None 2 2)],
      clock = 2\<rparr>"
  by (simp add: zero2_def zero1_def task_z_def run_defs)

lemma step_run3: "step run2 3 run3"
  unfolding run3_def by (rule step.resolved) (simp add: run2_eq)

lemma reachable_run3: "reachable run3"
  using reachable_run2 _ step_run3 by (rule reachable.step) (simp add: run2_eq)

lemma step_run4: "step run3 4 run4"
  unfolding run4_def by (rule step.resolved) (simp add: run3_eq)

lemma reachable_run4: "reachable run4"
  using reachable_run3 _ step_run4 by (rule reachable.step) (simp add: run3_eq)

lemmas more_inputs = result_a5_def task_c_def task_d_def task_e_def node_c_def node_d_def node_e_def
  result_c_def result_d_def task_p_def task_q_def node_p_def node_q_def

lemmas reject_defs = process_rejected_def cancelDependants_def dependsOn_def setError_def

lemma run5_eq:
  "run5 =
     \<lparr>roots = \<lparr>nm_index = [(''build.a.v1'', node_a)], nm_length = 1\<rparr>,
      index = \<lparr>nm_index = [(''deploy.b.v1'', node_b), (''build.a.v1'', node_a)], nm_length = 2\<rparr>,
      inProgress = \<lparr>nm_index = [(''deploy.b.v1'', node_b)], nm_length = 1\<rparr>,
      taskDependencyCache = [''deploy.b.v1'' \<mapsto> [''build.a''], ''build.a.v1'' \<mapsto> []],
      resultCache = \<lparr>cache = [(''build.a.v1'', setOutput result_a ''built'' 3)], cache_length = 1\<rparr>,
      concurrencyLimit = 2,
      dependencies = (\<lambda>k. TaskNodeMap_new)
        (''deploy.b.v1'' := \<lparr>nm_index = [(''build.a.v1'', node_a)], nm_length = 1\<rparr>,
         ''build.a.v1'' := TaskNodeMap_new),
      events = [TaskPending 1 ''deploy.b.v1'' ''v1'', TaskGraphProcessing 2,
                TaskComplete (setOutput result_a ''built'' 3), TaskGraphProcessing 3,
                TaskPending 4 ''build.a.v1'' ''v1''],
      processing = [(node_b, result_b)], clock = 4\<rparr>"
  unfolding run5_def run3_eq by (simp add: run_inputs run_defs settle_defs)

lemma run6_eq:
  "run6 =
     \<lparr>roots = \<lparr>nm_index = [(''build.a.v1'', node_a)], nm_length = 1\<rparr>,
      index = \<lparr>nm_index = [(''deploy.b.v1'', node_b), (''build.a.v1'', node_a)], nm_length = 2\<rparr>,
      inProgress = \<lparr>nm_index = [(''deploy.b.v1'', node_b), (''build.a.v1'', node_a)], nm_length = 2\<rparr>,
      taskDependencyCache = [''deploy.b.v1'' \<mapsto> [''build.a''], ''build.a.v1'' \<mapsto> []],
      resultCache = \<lparr>cache = [(''build.a.v1'', setOutput result_a ''built'' 3)], cache_length = 1\<rparr>,
      concurrencyLimit = 2,
      dependencies = (\<lambda>k. TaskNodeMap_new)
        (''deploy.b.v1'' := \<lparr>nm_index = [(''build.a.v1'', node_a)], nm_length = 1\<rparr>,
         ''build.a.v1'' := TaskNodeMap_new),
      events = [TaskPending 1 ''deploy.b.v1'' ''v1'', TaskGraphProcessing 2,
                TaskComplete (setOutput result_a ''built'' 3), TaskGraphProcessing 3,
                TaskPending 4 ''build.a.v1'' ''v1'', TaskGraphProcessing 5],
      processing = [(node_b, result_b), (node_a, result_a5)], clock = 5\<rparr>"
  unfolding run6_def run5_eq by (simp add: run_inputs more_inputs run_defs settle_defs)

lemma run7r_eq:
  "run7r =
     \<lparr>roots = \<lparr>nm_index = [(''deploy.b.v1'', node_b)], nm_length = 1\<rparr>,
      index = \<lparr>nm_index = [(''deploy.b.v1'', node_b)], nm_length = 1\<rparr>,
      inProgress = \<lparr>nm_index = [(''deploy.b.v1'', node_b)], nm_length = 1\<rparr>,
      taskDependencyCache = [''deploy.b.v1'' \<mapsto> [''build.a''], ''build.a.v1'' \<mapsto> []],
      resultCache = \<lparr>cache = [(''build.a.v1'', setOutput result_a5 ''built again'' 6)], cache_length = 2\<rparr>,
      concurrencyLimit = 2,
      dependencies = (\<lambda>k. TaskNodeMap_new)
        (''build.a.v1'' := TaskNodeMap_new, ''deploy.b.v1'' := TaskNodeMap_new),
      events = [TaskPending 1 ''deploy.b.v1'' ''v1'', TaskGraphProcessing 2,
                TaskComplete (setOutput result_a ''built'' 3), TaskGraphProcessing 3,
                TaskPending 4 ''build.a.v1'' ''v1'', TaskGraphProcessing 5,
                TaskComplete (setOutput result_a5 ''built again'' 6), TaskGraphProcessing 6],
      processing = [(node_b, result_b)], clock = 6\<rparr>"
  unfolding run7r_def run6_eq by (simp add: run_inputs more_inputs run_defs settle_defs)

lemma run7_eq:
  "run7 =
     \<lparr>roots = \<lparr>nm_index = [(''build.a.v1'', node_a)], nm_length = 1\<rparr>,
      index = TaskNodeMap_new, inProgress = TaskNodeMap_new,
      taskDependencyCache = [''deploy.b.v1'' \<mapsto> [''build.a''], ''build.a.v1'' \<mapsto> []],
      resultCache = \<lparr>cache = [(''build.a.v1'', setError result_a5 ''failed'' 6)], cache_length = 2\<rparr>,
      concurrencyLimit = 2,
      dependencies = (\<lambda>k. TaskNodeMap_new)
        (''deploy.b.v1'' := \<lparr>nm_index = [(''build.a.v1'', node_a)], nm_length = 1\<rparr>,
         ''build.a.v1'' := TaskNodeMap_new),
      events = [TaskPending 1 ''deploy.b.v1'' ''v1'', TaskGraphProcessing 2,
                TaskComplete (setOutput result_a ''built'' 3), TaskGraphProcessing 3,
                TaskPending 4 ''build.a.v1'' ''v1'', TaskGraphProcessing 5,
                TaskError (setError result_a5 ''failed'' 6), TaskGraphComplete 6],
      processing = [(node_b, result_b)], clock = 6\<rparr>"
  unfolding run7_def run6_eq by (simp add: run_inputs more_inputs run_defs settle_defs reject_defs)

lemma run8_eq:
  "run8 =
     \<lparr>roots = \<lparr>nm_index = [(''test.c.v1'', node_c), (''test.d.v1'', node_d)], nm_length = 2\<rparr>,
      index = \<lparr>nm_index = [(''deploy.e.v1'', node_e), (''test.c.v1'', node_c), (''test.d.v1'', node_d)],
                nm_length = 3\<rparr>,
      inProgress = TaskNodeMap_new,
      taskDependencyCache = [''deploy.b.v1'' \<mapsto> [''build.a''], ''build.a.v1'' \<mapsto> [],
        ''deploy.e.v1'' \<mapsto> [''test.c'', ''test.d''], ''test.c.v1'' \<mapsto> [], ''test.d.v1'' \<mapsto> []],
      resultCache = \<lparr>cache = [(''build.a.v1'', setError result_a5 ''failed'' 6)], cache_length = 2\<rparr>,
      concurrencyLimit = 2,
      dependencies = (\<lambda>k. TaskNodeMap_new)
        (''deploy.b.v1'' := \<lparr>nm_index = [(''build.a.v1'', node_a)], nm_length = 1\<rparr>,
         ''build.a.v1'' := TaskNodeMap_new,
         ''deploy.e.v1'' := \<lparr>nm_index = [(''test.c.v1'', node_c), (''test.d.v1'', node_d)], nm_length = 2\<rparr>,
         ''test.c.v1'' := TaskNodeMap_new, ''test.d.v1'' := TaskNodeMap_new),
      events = [TaskPending 1 ''deploy.b.v1'' ''v1'', TaskGraphProcessing 2,
                TaskComplete (setOutput result_a ''built'' 3), TaskGraphProcessing 3,
                TaskPending 4 ''build.a.v1'' ''v1'', TaskGraphProcessing 5,
                TaskError (setError result_a5 ''failed'' 6), TaskGraphComplete 6,
                TaskPending 7 ''deploy.e.v1'' ''v1''],
      processing = [(node_b, result_b)], clock = 7\<rparr>"
  unfolding run8_def run7_eq by (simp add: run_inputs more_inputs run_defs settle_defs reject_defs)

lemma run9_eq:
  "run9 =
     \<lparr>roots = \<lparr>nm_index = [(''test.c.v1'', node_c), (''test.d.v1'', node_d)], nm_length = 2\<rparr>,
      index = \<lparr>nm_index = [(''deploy.e.v1'', node_e), (''test.c.v1'', node_c), (''test.d.v1'', node_d)],
                nm_length = 3\<rparr>,
      inProgress = \<lparr>nm_index = [(''test.c.v1'', node_c), (''test.d.v1'', node_d)], nm_length = 2\<rparr>,
      taskDependencyCache = [''deploy.b.v1'' \<mapsto> [''build.a''], ''build.a.v1'' \<mapsto> [],
        ''deploy.e.v1'' \<mapsto> [''test.c'', ''test.d''], ''test.c.v1'' \<mapsto> [], ''test.d.v1'' \<mapsto> []],
      resultCache = \<lparr>cache = [(''build.a.v1'', setError result_a5 ''failed'' 6)], cache_length = 2\<rparr>,
      concurrencyLimit = 2,
      dependencies = (\<lambda>k. TaskNodeMap_new)
        (''deploy.b.v1'' := \<lparr>nm_index = [(''build.a.v1'', node_a)], nm_length = 1\<rparr>,
         ''build.a.v1'' := TaskNodeMap_new,
         ''deploy.e.v1'' := \<lparr>nm_index = [(''test.c.v1'', node_c), (''test.d.v1'', node_d)], nm_length = 2\<rparr>,
         ''test.c.v1'' := TaskNodeMap_new, ''test.d.v1'' := TaskNodeMap_new),
      events = [TaskPending 1 ''deploy.b.v1'' ''v1'', TaskGraphProcessing 2,
                TaskComplete (setOutput result_a ''built'' 3), TaskGraphProcessing 3,
                TaskPending 4 ''build.a.v1'' ''v1'', TaskGraphProcessing 5,
                TaskError (setError result_a5 ''failed'' 6), TaskGraphComplete 6,
                TaskPending 7 ''deploy.e.v1'' ''v1'', TaskGraphProcessing 8],
      processing = [(node_b, result_b), (node_c, result_c), (node_d, result_d)], clock = 8\<rparr>"
  unfolding run9_def run8_eq by (simp add: run_inputs more_inputs run_defs settle_defs reject_defs)

lemma fam0_eq:
  "fam0 =
     \<lparr>roots = TaskNodeMap_new,
      index = \<lparr>nm_index = [(''build.p.v1'', node_p), (''build.q.v1'', node_q)], nm_length = 2\<rparr>,
      inProgress = \<lparr>nm_index = [(''build.p.v1'', node_p)], nm_length = 1\<rparr>,
      taskDependencyCache = Map.empty, resultCache = ResultCache_new, concurrencyLimit = 10,
      dependencies = (\<lambda>k. TaskNodeMap_new), events = [], processing = [], clock = 0\<rparr>"
  by (simp add: fam0_def more_inputs run_defs)

lemma fam1_eq:
  "fam1 =
     \<lparr>roots = \<lparr>nm_index = [(''build.p.v1'', node_p), (''build.q.v1'', node_q)], nm_length = 2\<rparr>,
      index = \<lparr>nm_index = [(''build.p.v1'', node_p), (''build.q.v1'', node_q)], nm_length = 2\<rparr>,
      inProgress = \<lparr>nm_index = [(''build.p.v1'', node_p), (''build.q.v1'', node_q)], nm_length = 2\<rparr>,
      taskDependencyCache = Map.empty, resultCache = ResultCache_new, concurrencyLimit = 10,
      dependencies = (\<lambda>k. TaskNodeMap_new)
        (''build.p.v1'' := TaskNodeMap_new, ''build.q.v1'' := TaskNodeMap_new),
      events = [TaskGraphProcessing 1],
      processing = [(node_q, TaskResult ''build.q'' ''build.q.v1'' ''9'' ''{}'' ''build'' ''building q''
                               None [] None 1 1)],
      clock = 1\<rparr>"
  unfolding fam1_def fam0_eq by (simp add: more_inputs run_defs)

lemma orElse_fst: "r \<noteq> None \<Longrightarrow> \<exists>e. r = Some (orElse (map_option fst r) d, e)"
  by (cases r) (auto simp: orElse_def)

lemma run5_added: "addTaskInternal 2 (tick run3 4) task_a 4 = Some run5"
  unfolding run5_def by (rule orElse_Some) (simp add: run3_eq run_inputs run_defs)

lemma step_run5: "step run3 4 run5"
  using run5_added by (rule step.add)

lemma reachable_run5: "reachable run5"
  using reachable_run3 _ step_run5 by (rule reachable.step) (simp add: run3_eq)

lemma step_run6: "step run5 5 run6"
  unfolding run6_def by (rule step.loop)

lemma reachable_run6: "reachable run6"
  using reachable_run5 _ step_run6 by (rule reachable.step) (simp add: run5_eq)

lemma step_run7r: "step run6 6 run7r"
  unfolding run7r_def by (rule step.resolved) (simp add: run6_eq)

lemma run7_rejected: "\<exists>e. process_rejected 2 (tick run6 6) node_a result_a5 ''failed'' 6 = Some (run7, e)"
  unfolding run7_def
  by (rule orElse_fst) (simp add: run6_eq run_inputs more_inputs run_defs settle_defs reject_defs)

lemma step_run7: "step run6 6 run7"
proof -
  obtain e where "process_rejected 2 (tick run6 6) node_a result_a5 ''failed'' 6 = Some (run7, e)"
    using run7_rejected by blast
  moreover have "(node_a, result_a5) \<in> set (processing run6)" by (simp add: run6_eq)
  ultimately show ?thesis by (rule step.rejected [rotated])
qed

lemma reachable_run7: "reachable run7"
  using reachable_run6 _ step_run7 by (rule reachable.step) (simp add: run6_eq)

lemma run8_added: "addTaskInternal 2 (tick run7 7) task_e 7 = Some run8"
  unfolding run8_def by (rule orElse_Some) (simp add: run7_eq run_inputs more_inputs run_defs)

lemma reachable_run8: "reachable run8"
  using reachable_run7 _ step.add [OF run8_added] by (rule reachable.step) (simp add: run7_eq)

lemma reachable_run9: "reachable run9"
  unfolding run9_def
  using reachable_run8 _ step.loop by (rule reachable.step) (simp add: run8_eq)

section \<open>What rebuild computes\<close>

lemma taskDeps_cong: "taskDependencyCache g' = taskDependencyCache g \<Longrightarrow> taskDeps g' n = taskDeps g n"
  by (simp add: taskDeps_def)

lemma rebuild_fold_cache:
  "taskDependencyCache (fold (\<lambda>node g'. setDependencies g' node (F g' node)) xs g) = taskDependencyCache g"
  using rebuild_fold_frame [of g F xs] by (simp add: same_but_deps_def)

lemma rebuild_fold_other:
  "k \<notin> n_key ` set xs \<Longrightarrow>
     dependencies (fold (\<lambda>node g'. setDependencies g' node (F g' node)) xs g) k = dependencies g k"
  by (induction xs arbitrary: g) (simp_all add: setDependencies_def)

lemma rebuild_fold_deps:
  assumes "distinct (map n_key xs)" and "n \<in> set xs"
  shows "dependencies (fold (\<lambda>node g'. setDependencies g' node
             (filter (\<lambda>a. n_baseKey a \<in> set (taskDeps g' node)) ns)) xs g) (n_key n) =
         nm_setNodes (nm_clear (dependencies g (n_key n)))
           (filter (\<lambda>a. n_baseKey a \<in> set (taskDeps g n)) ns)"
  using assms
proof (induction xs arbitrary: g)
  case Nil
  then show ?case by simp
next
  case (Cons x xs)
  let ?F = "\<lambda>g' node. filter (\<lambda>a. n_baseKey a \<in> set (taskDeps g' node)) ns"
  define g1 where "g1 = setDependencies g x (?F g x)"
  have fold: "fold (\<lambda>node g'. setDependencies g' node (?F g' node)) (x # xs) g =
              fold (\<lambda>node g'. setDependencies g' node (?F g' node)) xs g1"
    by (simp add: g1_def)
  show ?case
  proof (cases "n_key n = n_key x")
    case True
    then have "n = x" using Cons.prems by (auto intro: rev_image_eqI)
    have "n_key x \<notin> n_key ` set xs" using Cons.prems(1) by auto
    then have "dependencies (fold (\<lambda>node g'. setDependencies g' node (?F g' node)) xs g1) (n_key x) =
               dependencies g1 (n_key x)"
      by (rule rebuild_fold_other)
    then show ?thesis
      unfolding fold using \<open>n = x\<close> by (simp add: g1_def setDependencies_def)
  next
    case False
    then have n: "n \<in> set xs" using Cons.prems(2) by auto
    have d: "distinct (map n_key xs)" using Cons.prems(1) by simp
    have "taskDeps g1 n = taskDeps g n"
      by (rule taskDeps_cong) (simp add: g1_def)
    moreover have "dependencies g1 (n_key n) = dependencies g (n_key n)"
      using False by (simp add: g1_def setDependencies_def)
    ultimately show ?thesis
      unfolding fold using Cons.IH [OF d n, of g1] by simp
  qed
qed

lemma nm_addNode_nonempty: "nm_index (nm_addNode m n) \<noteq> []"
  by (cases "nm_index m") (auto simp: nm_addNode_def nm_getNode_def Let_def)

lemma nm_setNodes_index_empty:
  "nm_index (fold (\<lambda>node m'. nm_addNode m' node) xs m) = [] \<longleftrightarrow> nm_index m = [] \<and> xs = []"
  by (induction xs arbitrary: m) (simp_all add: nm_addNode_nonempty)

lemma nm_setNodes_empty: "nm_getNodes (nm_setNodes (nm_clear m) xs) = [] \<longleftrightarrow> xs = []"
  by (simp add: nm_getNodes_def nm_setNodes_def nm_setNodes_index_empty nm_clear_def)

lemma nm_addNode_nodes: "set (nm_getNodes (nm_addNode m n)) \<subseteq> insert n (set (nm_getNodes m))"
proof (cases "nm_contains m n")
  case True
  then show ?thesis by (auto simp: nm_addNode_old)
next
  case False
  then show ?thesis using nm_addNode_new(1) [OF False] by (auto simp: nm_getNodes_def)
qed

lemma nm_setNodes_nodes:
  "set (nm_getNodes (nm_setNodes m xs)) \<subseteq> set (nm_getNodes m) \<union> set xs"
  unfolding nm_setNodes_def
proof (induction xs arbitrary: m)
  case Nil
  then show ?case by simp
next
  case (Cons x xs)
  show ?case using Cons.IH [of "nm_addNode m x"] nm_addNode_nodes [of m x] by auto
qed

lemma nm_ok_keys: "nm_ok m \<Longrightarrow> distinct (map n_key (nm_getNodes m))"
proof -
  assume ok: "nm_ok m"
  then have "map n_key (nm_getNodes m) = map fst (nm_index m)"
    by (simp add: nm_ok_def nm_getNodes_def)
  then show ?thesis using ok by (simp add: nm_ok_def)
qed

lemma rebuild_unfold:
  "rebuild g =
     (fold (\<lambda>node g'. setDependencies g' node
              (filter (\<lambda>a. n_baseKey a \<in> set (taskDeps g' node)) (nm_getNodes (index g))))
        (nm_getNodes (index g)) g)
     \<lparr> roots := nm_setNodes (nm_clear (roots g))
         (filter (\<lambda>n. length (getDependencies
            (fold (\<lambda>node g'. setDependencies g' node
              (filter (\<lambda>a. n_baseKey a \<in> set (taskDeps g' node)) (nm_getNodes (index g))))
              (nm_getNodes (index g)) g) n) = 0) (nm_getNodes (index g))) \<rparr>"
proof -
  have "roots (fold (\<lambda>node g'. setDependencies g' node
              (filter (\<lambda>a. n_baseKey a \<in> set (taskDeps g' node)) (nm_getNodes (index g))))
        (nm_getNodes (index g)) g) = roots g"
    using rebuild_fold_frame [of g "\<lambda>g' node. filter (\<lambda>a. n_baseKey a \<in> set (taskDeps g' node)) (nm_getNodes (index g))" "nm_getNodes (index g)"]
    by (simp add: same_but_deps_def)
  then show ?thesis by (simp add: rebuild_def Let_def)
qed

lemma rebuild_deps:
  assumes "nm_ok (index g)" and "n \<in> set (nm_getNodes (index g))"
  shows "getDependencies (rebuild g) n = [] \<longleftrightarrow>
         (\<forall>a \<in> set (nm_getNodes (index g)). n_baseKey a \<notin> set (taskDeps g n))"
proof -
  have "dependencies (rebuild g) (n_key n) =
        nm_setNodes (nm_clear (dependencies g (n_key n)))
          (filter (\<lambda>a. n_baseKey a \<in> set (taskDeps g n)) (nm_getNodes (index g)))"
    unfolding rebuild_unfold using rebuild_fold_deps [OF nm_ok_keys [OF assms(1)] assms(2)]
    by simp
  then show ?thesis
    by (simp add: getDependencies_def nm_setNodes_empty filter_empty_conv)
qed

lemma rebuild_roots:
  assumes "n \<in> set (nm_getNodes (roots (rebuild g)))"
  shows "n \<in> set (nm_getNodes (index g)) \<and> getDependencies (rebuild g) n = []"
proof -
  let ?g1 = "fold (\<lambda>node g'. setDependencies g' node
              (filter (\<lambda>a. n_baseKey a \<in> set (taskDeps g' node)) (nm_getNodes (index g))))
        (nm_getNodes (index g)) g"
  let ?new = "filter (\<lambda>n. length (getDependencies ?g1 n) = 0) (nm_getNodes (index g))"
  have "roots (rebuild g) = nm_setNodes (nm_clear (roots g)) ?new"
    by (subst rebuild_unfold) simp
  then have "n \<in> set (nm_getNodes (nm_clear (roots g))) \<union> set ?new"
    using assms nm_setNodes_nodes [of "nm_clear (roots g)" ?new] by auto
  then have "n \<in> set ?new" by (simp add: nm_clear_def nm_getNodes_def)
  moreover have "getDependencies (rebuild g) n = getDependencies ?g1 n"
    by (subst rebuild_unfold) (simp add: getDependencies_def)
  ultimately show ?thesis by simp
qed

section \<open>What loop starts\<close>

lemma loop_roots_inProgress:
  "\<exists>ip. fst (loop_roots g ns batch) = g\<lparr> inProgress := ip \<rparr>"
proof (induction g ns batch rule: loop_roots.induct)
  case (1 g batch)
  have "g = g\<lparr> inProgress := inProgress g \<rparr>" by simp
  then show ?case by (metis fst_conv loop_roots.simps(1))
next
  case (2 g node rest batch)
  have self: "\<exists>ip. g = g\<lparr> inProgress := ip \<rparr>"
    by (rule exI [of _ "inProgress g"]) simp
  have upd: "\<exists>ip. fst (loop_roots (g\<lparr> inProgress := x \<rparr>) rest b) = g\<lparr> inProgress := ip \<rparr>"
    if "\<exists>ip. fst (loop_roots (g\<lparr> inProgress := x \<rparr>) rest b) = g\<lparr> inProgress := x \<rparr>\<lparr> inProgress := ip \<rparr>"
    for x b
    using that by simp
  show ?case
  proof (cases "nm_length (inProgress g) \<ge> int (concurrencyLimit g)")
    case True
    then show ?thesis using self by simp
  next
    case room: False
    show ?thesis
    proof (cases "nm_contains (inProgress g) node")
      case True
      then show ?thesis using "2.IH"(1) [OF room True] room by simp
    next
      case new: False
      show ?thesis
      proof (cases "typeLimit node")
        case None
        show ?thesis
          using upd [OF "2.IH"(2) [OF room new None]] room new None by simp
      next
        case (Some k)
        show ?thesis
        proof (cases "length (filter (\<lambda>n. n_type n = n_type node) (nm_getNodes (inProgress g))) \<ge> k")
          case True
          then show ?thesis
            using "2.IH"(3) [OF room new Some refl True] room new Some by simp
        next
          case False
          then show ?thesis
            using upd [OF "2.IH"(4) [OF room new Some refl False]] room new Some by simp
        qed
      qed
    qed
  qed
qed

lemma loop_roots_batch:
  "loop_roots g ns batch = (g', Some batch') \<Longrightarrow> set batch' \<subseteq> set batch \<union> set ns"
proof (induction g ns batch arbitrary: g' batch' rule: loop_roots.induct)
  case (1 g batch)
  then show ?case by auto
next
  case (2 g node rest batch)
  show ?case
  proof (cases "nm_length (inProgress g) \<ge> int (concurrencyLimit g)")
    case True
    then show ?thesis using "2.prems" by simp
  next
    case room: False
    show ?thesis
    proof (cases "nm_contains (inProgress g) node")
      case True
      then show ?thesis using "2.IH"(1) [OF room True] "2.prems" room by auto
    next
      case new: False
      show ?thesis
      proof (cases "typeLimit node")
        case None
        then show ?thesis
          using "2.IH"(2) [OF room new None] "2.prems" room new by auto
      next
        case (Some k)
        show ?thesis
        proof (cases "length (filter (\<lambda>n. n_type n = n_type node) (nm_getNodes (inProgress g))) \<ge> k")
          case True
          then show ?thesis
            using "2.IH"(3) [OF room new Some refl True] "2.prems" room new Some by auto
        next
          case False
          then show ?thesis
            using "2.IH"(4) [OF room new Some refl False] "2.prems" room new Some by auto
        qed
      qed
    qed
  qed
qed

lemma fold_processTask_processing:
  "(n, r) \<in> set (processing (fold (\<lambda>node g'. processTask g' node now) batch g)) \<Longrightarrow>
     (n, r) \<in> set (processing g) \<or> (n \<in> set batch \<and> r_startedAt r = now \<and> r_key r = n_key n)"
proof (induction batch arbitrary: g)
  case Nil
  then show ?case by simp
next
  case (Cons x xs)
  have "(n, r) \<in> set (processing (processTask g x now)) \<or>
        (n \<in> set xs \<and> r_startedAt r = now \<and> r_key r = n_key n)"
    using Cons.IH [of "processTask g x now"] Cons.prems by simp
  then show ?case by (auto simp: processTask_def Let_def)
qed

text \<open>The three ways in which \<open>loop\<close> ends.\<close>

lemma loop_cases:
  obtains (idle) "nm_length (index g) = 0" and "loop g now = emit g (TaskGraphComplete now)"
  | (dropped) ip where "nm_length (index g) \<noteq> 0"
      and "loop g now = (rebuild (emit g (TaskGraphProcessing now)))\<lparr> inProgress := ip \<rparr>"
  | (started) ip batch where "nm_length (index g) \<noteq> 0"
      and "set batch \<subseteq> set (nm_getNodes (roots (rebuild (emit g (TaskGraphProcessing now)))))"
      and "loop g now = fold (\<lambda>node g'. processTask g' node now) batch
             ((rebuild (emit g (TaskGraphProcessing now)))\<lparr> inProgress := ip \<rparr>)"
proof (cases "nm_length (index g) = 0")
  case True
  then show ?thesis using idle by (simp add: loop_def)
next
  case False
  define g2 where "g2 = rebuild (emit g (TaskGraphProcessing now))"
  obtain g3 b where r: "loop_roots g2 (nm_getNodes (roots g2)) [] = (g3, b)"
    by (cases "loop_roots g2 (nm_getNodes (roots g2)) []") auto
  obtain ip where ip: "g3 = g2\<lparr> inProgress := ip \<rparr>"
    using loop_roots_inProgress [of g2 "nm_getNodes (roots g2)" "[]"] r by auto
  show ?thesis
  proof (cases b)
    case None
    then have "loop g now = g2\<lparr> inProgress := ip \<rparr>"
      using False r ip by (simp add: loop_def Let_def g2_def)
    then show ?thesis using dropped False by (simp add: g2_def)
  next
    case (Some batch)
    then have "loop g now = fold (\<lambda>node g'. processTask g' node now) batch (g2\<lparr> inProgress := ip \<rparr>)"
      using False r ip by (simp add: loop_def Let_def g2_def)
    moreover have "set batch \<subseteq> set (nm_getNodes (roots g2))"
      using loop_roots_batch [of g2 "nm_getNodes (roots g2)" "[]" g3 batch] r Some by simp
    ultimately show ?thesis using started False by (simp add: g2_def)
  qed
qed

lemma fold_processTask_more [simp]:
  "roots (fold (\<lambda>node g'. processTask g' node t) ns g) = roots g"
  by (induction ns arbitrary: g) simp_all

lemma loop_frame:
  "concurrencyLimit (loop g now) = concurrencyLimit g" "index (loop g now) = index g"
  "resultCache (loop g now) = resultCache g"
  "taskDependencyCache (loop g now) = taskDependencyCache g" "clock (loop g now) = clock g"
  "events (loop g now) = events g @ [if nm_length (index g) = 0 then TaskGraphComplete now
                                     else TaskGraphProcessing now]"
  by (cases g now rule: loop_cases; simp)+

lemma loop_processing_old: "set (processing g) \<subseteq> set (processing (loop g now))"
proof (cases g now rule: loop_cases)
  case idle
  then show ?thesis by simp
next
  case (dropped ip)
  then show ?thesis by simp
next
  case (started ip batch)
  have "set (processing g') \<subseteq> set (processing (fold (\<lambda>node g'. processTask g' node now) batch g'))" for g'
  proof (induction batch arbitrary: g')
    case Nil
    then show ?case by simp
  next
    case (Cons x xs)
    have "set (processing g') \<subseteq> set (processing (processTask g' x now))"
      by (auto simp: processTask_def Let_def)
    then show ?case using Cons.IH [of "processTask g' x now"] by auto
  qed
  from this [of "(rebuild (emit g (TaskGraphProcessing now)))\<lparr> inProgress := ip \<rparr>"]
  show ?thesis using started by simp
qed

lemma started_ok_cong:
  "roots g' = roots g \<Longrightarrow> index g' = index g \<Longrightarrow> dependencies g' = dependencies g \<Longrightarrow>
   taskDependencyCache g' = taskDependencyCache g \<Longrightarrow> started_ok g' now b rb = started_ok g now b rb"
  by (simp add: started_ok_def getDependencies_def taskDeps_def)

lemma fold_processTask_deps [simp]:
  "dependencies (fold (\<lambda>node g'. processTask g' node t) ns g) = dependencies g"
  by (induction ns arbitrary: g) simp_all

lemma loop_started:
  assumes ok: "nm_ok (index g)"
    and new: "(b, rb) \<in> set (processing (loop g now))" "(b, rb) \<notin> set (processing g)"
  shows "started_ok (loop g now) now b rb"
proof (cases g now rule: loop_cases)
  case idle
  then show ?thesis using new by simp
next
  case (dropped ip)
  then show ?thesis using new by simp
next
  case (started ip batch)
  define g1 where "g1 = emit g (TaskGraphProcessing now)"
  define g2 where "g2 = rebuild g1"
  have l: "loop g now = fold (\<lambda>node g'. processTask g' node now) batch (g2\<lparr> inProgress := ip \<rparr>)"
    using started by (simp add: g1_def g2_def)
  have "(b, rb) \<in> set (processing (g2\<lparr> inProgress := ip \<rparr>)) \<or>
        (b \<in> set batch \<and> r_startedAt rb = now \<and> r_key rb = n_key b)"
    using new(1) unfolding l by (rule fold_processTask_processing)
  then have b: "b \<in> set batch" and t: "r_startedAt rb = now" "r_key rb = n_key b"
    using new(2) by (simp_all add: g2_def g1_def)
  have root: "b \<in> set (nm_getNodes (roots g2))"
    using b started(2) by (auto simp: g1_def g2_def)
  then have r: "b \<in> set (nm_getNodes (index g1))" "getDependencies g2 b = []"
    using rebuild_roots [of b g1] by (simp_all add: g2_def)
  have ok1: "nm_ok (index g1)" using ok by (simp add: g1_def)
  have "\<forall>a \<in> set (nm_getNodes (index g1)). n_baseKey a \<notin> set (taskDeps g1 b)"
    using rebuild_deps [OF ok1 r(1)] r(2) by (simp add: g2_def)
  moreover have "taskDeps g2 b = taskDeps g1 b"
    by (rule taskDeps_cong) (simp add: g2_def)
  ultimately have "started_ok g2 now b rb"
    using root r t by (simp add: started_ok_def g2_def)
  moreover have "started_ok (loop g now) now b rb = started_ok g2 now b rb"
    unfolding l by (rule started_ok_cong) simp_all
  ultimately show ?thesis by simp
qed

section \<open>Invariants of a run\<close>

subsection \<open>The index\<close>

lemma fold_remove_frame [simp]:
  "concurrencyLimit (fold (\<lambda>dependant g'. remove g' dependant) ds g) = concurrencyLimit g"
  "processing (fold (\<lambda>dependant g'. remove g' dependant) ds g) = processing g"
  "resultCache (fold (\<lambda>dependant g'. remove g' dependant) ds g) = resultCache g"
  "taskDependencyCache (fold (\<lambda>dependant g'. remove g' dependant) ds g) = taskDependencyCache g"
  "clock (fold (\<lambda>dependant g'. remove g' dependant) ds g) = clock g"
  "events (fold (\<lambda>dependant g'. remove g' dependant) ds g) = events g"
  by (induction ds arbitrary: g) simp_all

lemma fold_remove_index_ok:
  "nm_ok (index g) \<Longrightarrow> nm_ok (index (fold (\<lambda>dependant g'. remove g' dependant) ds g))"
  by (induction ds arbitrary: g) (simp_all add: nm_removeNode_ok)

lemma settled_frame [simp]:
  "index (settled g n r) = index g" "events (settled g n r) = events g"
  "clock (settled g n r) = clock g" "concurrencyLimit (settled g n r) = concurrencyLimit g"
  "inProgress (settled g n r) = inProgress g" "resultCache (settled g n r) = resultCache g"
  "taskDependencyCache (settled g n r) = taskDependencyCache g"
  "processing (settled g n r) = remove1 (n, r) (processing g)"
  by (simp_all add: settled_def)

text \<open>The two ways in which \<open>settle\<close> ends.\<close>

lemma settle_cases:
  obtains (thrown) e where
      "settle g node result now = (g\<lparr> resultCache := put (resultCache g) result \<rparr>, Some e)"
  | (looped)
      "settle g node result now =
         (loop (remove (g\<lparr> resultCache := put (resultCache g) result \<rparr>) node) now, None)"
proof (cases "completeTask (g\<lparr> resultCache := put (resultCache g) result \<rparr>) node")
  case (Inl e)
  then show ?thesis using thrown by (simp add: settle_def)
next
  case (Inr g2)
  then have "g2 = remove (g\<lparr> resultCache := put (resultCache g) result \<rparr>) node"
    by (auto simp: completeTask_def split: if_splits)
  then show ?thesis using looped Inr by (simp add: settle_def)
qed

lemma settle_index_ok:
  "nm_ok (index g) \<Longrightarrow> nm_ok (index (fst (settle g node result now)))"
  by (cases rule: settle_cases [where g = g and node = node and result = result and now = now]) (simp_all add: loop_frame nm_removeNode_ok)

lemma settle_clock: "clock (fst (settle g node result now)) = clock g"
  by (cases rule: settle_cases [where g = g and node = node and result = result and now = now]) (simp_all add: loop_frame)

lemma settle_events:
  "\<exists>es. events (fst (settle g node result now)) = events g @ es \<and> (\<forall>e \<in> set es. stamped now e)"
proof (cases rule: settle_cases [where g = g and node = node and result = result and now = now])
  case (thrown e)
  then show ?thesis by simp
next
  case looped
  then show ?thesis by (simp add: loop_frame stamped_def)
qed

lemma settle_started:
  assumes "nm_ok (index g)"
    and "(b, rb) \<in> set (processing (fst (settle g node result now)))"
    and "(b, rb) \<notin> set (processing g)"
  shows "started_ok (fst (settle g node result now)) now b rb"
proof (cases rule: settle_cases [where g = g and node = node and result = result and now = now])
  case (thrown e)
  then show ?thesis using assms by simp
next
  case looped
  let ?g2 = "remove (g\<lparr> resultCache := put (resultCache g) result \<rparr>) node"
  have "started_ok (loop ?g2 now) now b rb"
    using assms looped by (intro loop_started) (simp_all add: nm_removeNode_ok)
  then show ?thesis using looped by simp
qed

lemma fold_option_inv:
  assumes "\<And>g x g'. x \<in> set xs \<Longrightarrow> P g \<Longrightarrow> f g x = Some g' \<Longrightarrow> P g'"
    and "P g"
    and "fold (\<lambda>x r. case r of None \<Rightarrow> None | Some g' \<Rightarrow> f g' x) xs (Some g) = Some g'"
  shows "P g'"
  using assms
proof (induction xs arbitrary: g)
  case Nil
  then show ?case by simp
next
  case (Cons x xs)
  show ?case
  proof (cases "f g x")
    case None
    have "fold (\<lambda>x r. case r of None \<Rightarrow> None | Some g' \<Rightarrow> f g' x) xs None = None"
      by (induction xs) simp_all
    then show ?thesis using Cons.prems(3) None by simp
  next
    case (Some g1)
    have 1: "P g1" using Cons.prems(1) [of x g g1] Cons.prems(2) Some by simp
    show ?thesis
    proof (rule Cons.IH [of g1])
      show "fold (\<lambda>x r. case r of None \<Rightarrow> None | Some g' \<Rightarrow> f g' x) xs (Some g1) = Some g'"
        using Cons.prems(3) Some by simp
      show "P g1" by (rule 1)
      fix ga xa ga'
      assume "xa \<in> set xs" "P ga" "f ga xa = Some ga'"
      then show "P ga'"
        by (intro Cons.prems(1) [of xa ga ga']) simp_all
    qed
  qed
qed

lemma addNode_task_index_ok:
  "nm_ok (index g) \<Longrightarrow> nm_ok (index (fst (addNode_task g task)))"
  by (simp add: addNode_task_def index_addNode_def nm_addNode_ok split: option.splits prod.splits)

lemma addNodeWithDependencies_index_ok:
  "addNodeWithDependencies fuel g task = Some g' \<Longrightarrow> nm_ok (index g) \<Longrightarrow> nm_ok (index g')"
proof (induction fuel arbitrary: g task g')
  case 0
  then show ?case by simp
next
  case (Suc fuel)
  obtain g1 r where a: "addNode_task g task = (g1, r)"
    by (cases "addNode_task g task") auto
  have 1: "nm_ok (index g1)"
    using addNode_task_index_ok [OF Suc.prems(2), of task] a by simp
  show ?case
  proof (cases r)
    case None
    then show ?thesis using Suc.prems a 1 by simp
  next
    case (Some node)
    define g2 where "g2 = g1\<lparr> taskDependencyCache :=
        (taskDependencyCache g1)(n_key node \<mapsto> map t_baseKey (t_dependencies (n_task node))) \<rparr>"
    have 2: "nm_ok (index g2)" using 1 by (simp add: g2_def)
    have f: "fold (\<lambda>dep r. case r of None \<Rightarrow> None | Some g' \<Rightarrow> addNodeWithDependencies fuel g' dep)
            (t_dependencies (n_task node)) (Some g2) = Some g'"
      using Suc.prems a Some by (simp add: Let_def g2_def)
    show ?thesis
    proof (rule fold_option_inv [where P = "\<lambda>g. nm_ok (index g)", OF _ 2 f])
      fix ga x ga'
      assume "nm_ok (index ga)" "addNodeWithDependencies fuel ga x = Some ga'"
      then show "nm_ok (index ga')" by (intro Suc.IH [of ga x ga'])
    qed
  qed
qed

lemma addTaskInternal_index_ok:
  assumes "addTaskInternal fuel g task now = Some g'" and "nm_ok (index g)"
  shows "nm_ok (index g')"
proof -
  obtain g1 where 1: "addNodeWithDependencies fuel (emit g (TaskPending now (t_key task) (t_versionString task))) task = Some g1"
    and 2: "g' = rebuild g1"
    using assms(1) by (auto simp: addTaskInternal_def split: option.splits)
  have "nm_ok (index g1)"
    using 1 assms(2) by (intro addNodeWithDependencies_index_ok [OF 1]) simp
  then show ?thesis by (simp add: 2)
qed

subsection \<open>A step\<close>

lemma process_rejected_unfold:
  assumes "process_rejected fuel g node result err now = Some (g', e)"
  obtains ds where "getDependants fuel (settled g node result) node = Some ds"
    and "g' = fst (settle (emit (rebuild (fold (\<lambda>dependant g'. remove g' dependant) ds
                      (settled g node result))) (TaskError (setError result err now)))
                    node (setError result err now) now)"
proof -
  obtain ds where ds: "getDependants fuel (settled g node result) node = Some ds"
    using assms by (auto simp: process_rejected_def cancelDependants_def Let_def split: option.splits)
  then have "g' = fst (settle (emit (rebuild (fold (\<lambda>dependant g'. remove g' dependant) ds
                      (settled g node result))) (TaskError (setError result err now)))
                    node (setError result err now) now)"
    using assms by (simp add: process_rejected_def cancelDependants_def Let_def)
  then show ?thesis using that ds by blast
qed

lemma setOutput_sel [simp]:
  "r_completedAt (setOutput r out now) = now" "r_startedAt (setOutput r out now) = r_startedAt r"
  "r_key (setOutput r out now) = r_key r" "r_error (setOutput r out now) = r_error r"
  "r_output (setOutput r out now) = Some out"
  by (simp_all add: setOutput_def)

lemma setError_sel [simp]:
  "r_completedAt (setError r err now) = now" "r_startedAt (setError r err now) = r_startedAt r"
  "r_key (setError r err now) = r_key r" "r_error (setError r err now) = Some err"
  by (simp_all add: setError_def)

lemma step_clock: "step g now g' \<Longrightarrow> clock g' = now"
proof (induction rule: step.induct)
  case (process g now tasks parent)
  show ?case by (simp add: process_def)
next
  case (add fuel g now task g')
  then show ?case using addTaskInternal_frame(5) [of fuel "tick g now" task now g'] by simp
next
  case (loop g now)
  then show ?case by (simp add: loop_frame)
next
  case (resolved node result g now out)
  then show ?case by (simp add: process_resolved_def Let_def settle_clock)
next
  case (rejected node result g fuel now err g' e)
  from rejected(2) show ?case
    by (rule process_rejected_unfold) (simp add: settle_clock)
qed

lemma step_index_ok: "step g now g' \<Longrightarrow> nm_ok (index g) \<Longrightarrow> nm_ok (index g')"
proof (induction rule: step.induct)
  case (process g now tasks parent)
  then show ?case by (simp add: process_def addNodes_index_ok)
next
  case (add fuel g now task g')
  then show ?case using addTaskInternal_index_ok [of fuel "tick g now" task now g'] by simp
next
  case (loop g now)
  then show ?case by (simp add: loop_frame)
next
  case (resolved node result g now out)
  then show ?case by (simp add: process_resolved_def Let_def settle_index_ok)
next
  case (rejected node result g fuel now err g' e)
  from rejected(2) show ?case
  proof (rule process_rejected_unfold)
    fix ds
    assume g': "g' = fst (settle (emit (rebuild (fold (\<lambda>dependant g'. remove g' dependant) ds
                      (settled (tick g now) node result))) (TaskError (setError result err now)))
                    node (setError result err now) now)"
    have "nm_ok (index (fold (\<lambda>dependant g'. remove g' dependant) ds (settled (tick g now) node result)))"
      using rejected(3) by (intro fold_remove_index_ok) simp
    then show ?thesis unfolding g' by (intro settle_index_ok) simp
  qed
qed

lemma step_events:
  "step g now g' \<Longrightarrow> \<exists>es. events g' = events g @ es \<and> (\<forall>e \<in> set es. stamped now e)"
proof (induction rule: step.induct)
  case (process g now tasks parent)
  show ?case by (simp add: process_def)
next
  case (add fuel g now task g')
  then show ?case
    using addTaskInternal_frame(6) [of fuel "tick g now" task now g'] by (simp add: stamped_def)
next
  case (loop g now)
  then show ?case by (simp add: loop_frame stamped_def)
next
  case (resolved node result g now out)
  let ?g1 = "emit (settled (tick g now) node result) (TaskComplete (setOutput result out now))"
  obtain es where "events (fst (settle ?g1 node (setOutput result out now) now)) = events ?g1 @ es"
    and "\<forall>e \<in> set es. stamped now e"
    using settle_events [of ?g1 node "setOutput result out now" now] by blast
  then have "events (fst (process_resolved (tick g now) node result out now)) =
             events g @ (TaskComplete (setOutput result out now) # es)
             \<and> (\<forall>e \<in> set (TaskComplete (setOutput result out now) # es). stamped now e)"
    by (simp add: process_resolved_def Let_def stamped_def)
  then show ?case by blast
next
  case (rejected node result g fuel now err g' e)
  from rejected(2) show ?case
  proof (rule process_rejected_unfold)
    fix ds
    let ?g1 = "emit (rebuild (fold (\<lambda>dependant g'. remove g' dependant) ds
                  (settled (tick g now) node result))) (TaskError (setError result err now))"
    assume g': "g' = fst (settle ?g1 node (setError result err now) now)"
    obtain es where "events g' = events ?g1 @ es" and "\<forall>e \<in> set es. stamped now e"
      using settle_events [of ?g1 node "setError result err now" now] unfolding g' by blast
    then have "events g' = events g @ (TaskError (setError result err now) # es)
             \<and> (\<forall>e \<in> set (TaskError (setError result err now) # es). stamped now e)"
      by (simp add: stamped_def)
    then show ?thesis by blast
  qed
qed

lemma step_started:
  assumes "step g now g'" and "nm_ok (index g)"
    and "(b, rb) \<in> set (processing g')" and "(b, rb) \<notin> set (processing g)"
  shows "started_ok g' now b rb"
  using assms
proof (induction rule: step.induct)
  case (process g now tasks parent)
  then show ?case by (simp add: process_def)
next
  case (add fuel g now task g')
  then show ?case using addTaskInternal_frame(3) [of fuel "tick g now" task now g'] by simp
next
  case (loop g now)
  then show ?case by (intro loop_started) simp_all
next
  case (resolved node result g now out)
  let ?g1 = "emit (settled (tick g now) node result) (TaskComplete (setOutput result out now))"
  have "(b, rb) \<notin> set (processing ?g1)"
    using resolved(4) by (auto dest: notin_set_remove1)
  moreover have "nm_ok (index ?g1)" using resolved(2) by simp
  ultimately have "started_ok (fst (settle ?g1 node (setOutput result out now) now)) now b rb"
    using resolved(3) by (intro settle_started) (simp_all add: process_resolved_def Let_def)
  then show ?case by (simp add: process_resolved_def Let_def)
next
  case (rejected node result g fuel now err g' e)
  from rejected(2) show ?case
  proof (rule process_rejected_unfold)
    fix ds
    let ?g1 = "emit (rebuild (fold (\<lambda>dependant g'. remove g' dependant) ds
                  (settled (tick g now) node result))) (TaskError (setError result err now))"
    assume g': "g' = fst (settle ?g1 node (setError result err now) now)"
    have "(b, rb) \<notin> set (processing ?g1)"
      using rejected(5) by (auto dest: notin_set_remove1)
    moreover have "nm_ok (index ?g1)"
      using rejected(3) by (simp add: fold_remove_index_ok)
    ultimately show ?thesis
      using rejected(4) unfolding g' by (intro settle_started) simp_all
  qed
qed

lemma step_run_ok:
  assumes "step g now g'" and "clock g \<le> now" and "run_ok g"
  shows "run_ok g'"
proof -
  obtain es where es: "events g' = events g @ es" "\<forall>e \<in> set es. stamped now e"
    using step_events [OF assms(1)] by blast
  have c: "clock g' = now" using assms(1) by (rule step_clock)
  have "\<exists>t \<le> clock g'. stamped t e" if "e \<in> set (events g')" for e
  proof (cases "e \<in> set es")
    case True
    then show ?thesis using es(2) c by auto
  next
    case False
    then have "e \<in> set (events g)" using that es(1) by simp
    then obtain t where "t \<le> clock g" "stamped t e"
      using assms(3) by (auto simp: run_ok_def)
    then show ?thesis using assms(2) c by (auto intro: order_trans)
  qed
  moreover have "nm_ok (index g')"
    using assms(1,3) by (auto simp: run_ok_def intro: step_index_ok)
  ultimately show ?thesis by (simp add: run_ok_def)
qed

lemma reachable_run_ok: "reachable g \<Longrightarrow> run_ok g"
proof (induction rule: reachable.induct)
  case (new limit)
  show ?case by (simp add: run_ok_def TaskGraph_new_def TaskNodeMap_new_def nm_ok_def)
next
  case (step g now g')
  then show ?case by (blast intro: step_run_ok)
qed


section \<open>C5: the concurrency ceilings\<close>




section \<open>C4: the events of a task\<close>

text \<open>
  C4. No state of a run has a \<open>taskProcessing\<close> event among the events emitted so far:
  \<open>processTask\<close> starts the task without emitting one, so no \<open>taskProcessing\<close> event stands
  between the \<open>taskPending\<close> event of a key and its terminal event.
\<close>

theorem taskProcessing_never_emitted:
  assumes "reachable g"
  shows "\<forall>e \<in> set (events g). \<not> isTaskProcessing e"
proof
  fix e
  assume "e \<in> set (events g)"
  then obtain t where "stamped t e"
    using reachable_run_ok [OF assms] by (auto simp: run_ok_def)
  then show "\<not> isTaskProcessing e"
    by (cases e) (simp_all add: stamped_def isTaskProcessing_def)
qed

theorem taskProcessing_never_emitted_witness:
  "reachable run4
   \<and> events run4 = [TaskPending 1 ''deploy.b.v1'' ''v1'', TaskGraphProcessing 2,
        TaskComplete (setOutput result_a ''built'' 3), TaskGraphProcessing 3,
        TaskComplete (setOutput result_b ''deployed'' 4), TaskGraphComplete 4]
   \<and> filter isTaskProcessing (events run4) = []"
  using taskProcessing_never_emitted [OF reachable_run4] reachable_run4
  by (simp add: run4_eq filter_empty_conv)

section \<open>C1: dependency order\<close>




section \<open>C2: cached results\<close>

lemma process_events: "events (fst (process g tasks parent)) = events g"
  by (simp add: process_def)

lemma get_Some: "get c k = Some r \<Longrightarrow> r_error r = None \<and> r_key r = k"
  by (auto simp: get_def split: option.splits if_splits)



section \<open>C3: the cancellation cascade\<close>

lemma getDependants_cong:
  "index g' = index g \<Longrightarrow> dependencies g' = dependencies g \<Longrightarrow>
     getDependants fuel g' node = getDependants fuel g node"
proof (induction fuel arbitrary: node)
  case 0
  show ?case by simp
next
  case (Suc fuel)
  have d: "dependsOn g' n m = dependsOn g n m" for n m
    using Suc.prems by (simp add: dependsOn_def getDependencies_def)
  have f: "getDependants fuel g' = getDependants fuel g"
    using Suc.IH [OF Suc.prems] by (intro ext)
  show ?case using Suc.prems d by (simp add: Let_def f)
qed

lemma those_map_Some:
  "those (map f xs) = Some ys \<longleftrightarrow> (\<forall>x \<in> set xs. f x \<noteq> None) \<and> ys = map (\<lambda>x. the (f x)) xs"
  by (induction xs arbitrary: ys) (auto split: option.splits)

lemma getDependants_returns:
  assumes "ranked g rank"
  shows "rank (n_baseKey node) < fuel \<Longrightarrow> \<exists>ds. getDependants fuel g node = Some ds"
proof (induction fuel arbitrary: node)
  case 0
  then show ?case by simp
next
  case (Suc fuel)
  let ?deps = "filter (\<lambda>n. dependsOn g n node) (nm_getNodes (index g))"
  have "\<exists>ds. getDependants fuel g d = Some ds" if "d \<in> set ?deps" for d
  proof -
    have i: "d \<in> set (nm_getNodes (index g))" and "dependsOn g d node" using that by simp_all
    then obtain x where x: "x \<in> set (getDependencies g d)" "n_baseKey x = n_baseKey node"
      by (auto simp: dependsOn_def)
    have "rank (n_baseKey d) < rank (n_baseKey x)"
      using assms i x(1) unfolding ranked_def by blast
    then show ?thesis using Suc.prems x(2) by (intro Suc.IH) simp
  qed
  then have "\<forall>d \<in> set ?deps. getDependants fuel g d \<noteq> None" by auto
  then have "those (map (getDependants fuel g) ?deps) =
             Some (map (\<lambda>x. the (getDependants fuel g x)) ?deps)"
    by (simp add: those_map_Some)
  then show ?case by (simp add: Let_def)
qed

lemma transDependant_unfold:
  "transDependant g node n \<longleftrightarrow>
     (n \<in> set (nm_getNodes (index g)) \<and> dependsOn g n node) \<or>
     (\<exists>m \<in> set (nm_getNodes (index g)). dependsOn g m node \<and> transDependant g m n)"
proof
  assume "transDependant g node n"
  then show "(n \<in> set (nm_getNodes (index g)) \<and> dependsOn g n node) \<or>
     (\<exists>m \<in> set (nm_getNodes (index g)). dependsOn g m node \<and> transDependant g m n)"
    by (cases rule: transDependant.cases) auto
next
  assume "(n \<in> set (nm_getNodes (index g)) \<and> dependsOn g n node) \<or>
     (\<exists>m \<in> set (nm_getNodes (index g)). dependsOn g m node \<and> transDependant g m n)"
  then show "transDependant g node n"
    by (auto intro: transDependant.intros)
qed

lemma getDependants_sound:
  "getDependants fuel g node = Some ds \<Longrightarrow> set ds = {n. transDependant g node n}"
proof (induction fuel arbitrary: node ds)
  case 0
  then show ?case by simp
next
  case (Suc fuel)
  let ?deps = "filter (\<lambda>n. dependsOn g n node) (nm_getNodes (index g))"
  obtain dss where dss: "those (map (getDependants fuel g) ?deps) = Some dss"
    and ds: "ds = ?deps @ concat dss"
    using Suc.prems by (auto simp: Let_def split: option.splits)
  have all: "\<forall>d \<in> set ?deps. getDependants fuel g d \<noteq> None"
    and dss_eq: "dss = map (\<lambda>x. the (getDependants fuel g x)) ?deps"
    using dss by (simp_all add: those_map_Some)
  have each: "set (the (getDependants fuel g d)) = {n. transDependant g d n}" if d: "d \<in> set ?deps" for d
  proof -
    obtain y where "getDependants fuel g d = Some y" using all d by blast
    then show ?thesis using Suc.IH [of d y] by simp
  qed
  have "set ds = set ?deps \<union> (\<Union>d \<in> set ?deps. {n. transDependant g d n})"
    unfolding ds dss_eq using each by auto
  also have "\<dots> = {n. transDependant g node n}"
    by (auto simp: transDependant_unfold [of g node])
  finally show ?case .
qed

lemma fold_remove_maps:
  "index (fold (\<lambda>d g'. remove g' d) ds g) = fold (\<lambda>d m. nm_removeNode m d) ds (index g)"
  "inProgress (fold (\<lambda>d g'. remove g' d) ds g) = fold (\<lambda>d m. nm_removeNode m d) ds (inProgress g)"
  by (induction ds arbitrary: g) simp_all

lemma fold_nm_removeNode:
  "nm_ok m \<Longrightarrow>
     nm_ok (fold (\<lambda>d m. nm_removeNode m d) ds m) \<and>
     set (nm_getNodes (fold (\<lambda>d m. nm_removeNode m d) ds m)) =
       {x \<in> set (nm_getNodes m). n_key x \<notin> n_key ` set ds}"
proof (induction ds arbitrary: m)
  case Nil
  then show ?case by simp
next
  case (Cons d ds)
  have "nm_ok (nm_removeNode m d)" using Cons.prems by (rule nm_removeNode_ok)
  then show ?case
    using Cons.IH [of "nm_removeNode m d"] nm_removeNode_nodes [OF Cons.prems, of d] by auto
qed

lemma nm_removeNode_subset: "set (nm_getNodes (nm_removeNode m n)) \<subseteq> set (nm_getNodes m)"
  by (auto simp: nm_getNodes_def nm_removeNode_index)

lemma loop_roots_inProgress_nodes:
  "set (nm_getNodes (inProgress (fst (loop_roots g ns batch)))) \<subseteq>
     set (nm_getNodes (inProgress g)) \<union> set ns"
proof (induction g ns batch rule: loop_roots.induct)
  case (1 g batch)
  then show ?case by simp
next
  case (2 g node rest batch)
  have add: "set (nm_getNodes (inProgress (fst (loop_roots (g\<lparr> inProgress := nm_addNode (inProgress g) node \<rparr>) rest b))))
        \<subseteq> set (nm_getNodes (inProgress g)) \<union> set (node # rest)"
    if "set (nm_getNodes (inProgress (fst (loop_roots (g\<lparr> inProgress := nm_addNode (inProgress g) node \<rparr>) rest b))))
        \<subseteq> set (nm_getNodes (inProgress (g\<lparr> inProgress := nm_addNode (inProgress g) node \<rparr>))) \<union> set rest" for b
    using that nm_addNode_nodes [of "inProgress g" node] by auto
  show ?case
  proof (cases "nm_length (inProgress g) \<ge> int (concurrencyLimit g)")
    case True
    then show ?thesis by auto
  next
    case room: False
    show ?thesis
    proof (cases "nm_contains (inProgress g) node")
      case True
      then show ?thesis using "2.IH"(1) [OF room True] room by auto
    next
      case new: False
      show ?thesis
      proof (cases "typeLimit node")
        case None
        show ?thesis
          using add [OF "2.IH"(2) [OF room new None]] room new None by simp
      next
        case (Some k)
        show ?thesis
        proof (cases "length (filter (\<lambda>n. n_type n = n_type node) (nm_getNodes (inProgress g))) \<ge> k")
          case True
          then show ?thesis
            using "2.IH"(3) [OF room new Some refl True] room new Some by auto
        next
          case False
          then show ?thesis
            using add [OF "2.IH"(4) [OF room new Some refl False]] room new Some by simp
        qed
      qed
    qed
  qed
qed

lemma loop_nodes:
  "set (nm_getNodes (inProgress (loop g now))) \<subseteq>
     set (nm_getNodes (inProgress g)) \<union> set (nm_getNodes (index g))"
proof (cases "nm_length (index g) = 0")
  case True
  then show ?thesis by (simp add: loop_def)
next
  case False
  define g2 where "g2 = rebuild (emit g (TaskGraphProcessing now))"
  obtain g3 b where r: "loop_roots g2 (nm_getNodes (roots g2)) [] = (g3, b)"
    by (cases "loop_roots g2 (nm_getNodes (roots g2)) []") auto
  have l: "loop g now = (case b of None \<Rightarrow> g3 | Some batch \<Rightarrow> fold (\<lambda>node g'. processTask g' node now) batch g3)"
    using False r by (simp add: loop_def Let_def g2_def)
  have "inProgress (loop g now) = inProgress g3"
    unfolding l by (cases b) simp_all
  moreover have "set (nm_getNodes (inProgress g3)) \<subseteq> set (nm_getNodes (inProgress g2)) \<union> set (nm_getNodes (roots g2))"
    using loop_roots_inProgress_nodes [of g2 "nm_getNodes (roots g2)" "[]"] r by simp
  moreover have "set (nm_getNodes (roots g2)) \<subseteq> set (nm_getNodes (index g))"
    using rebuild_roots [of _ "emit g (TaskGraphProcessing now)"] by (auto simp: g2_def)
  moreover have "inProgress g2 = inProgress g" by (simp add: g2_def)
  ultimately show ?thesis by auto
qed

lemma settle_nodes:
  "set (nm_getNodes (index (fst (settle g node result now)))) \<subseteq> set (nm_getNodes (index g))"
  "set (nm_getNodes (inProgress (fst (settle g node result now)))) \<subseteq>
     set (nm_getNodes (inProgress g)) \<union> set (nm_getNodes (index g))"
proof -
  let ?g2 = "remove (g\<lparr> resultCache := put (resultCache g) result \<rparr>) node"
  have i: "set (nm_getNodes (index ?g2)) \<subseteq> set (nm_getNodes (index g))"
    and p: "set (nm_getNodes (inProgress ?g2)) \<subseteq> set (nm_getNodes (inProgress g))"
    using nm_removeNode_subset by simp_all
  show "set (nm_getNodes (index (fst (settle g node result now)))) \<subseteq> set (nm_getNodes (index g))"
    using i
    by (cases rule: settle_cases [where g = g and node = node and result = result and now = now])
       (simp_all add: loop_frame)
  show "set (nm_getNodes (inProgress (fst (settle g node result now)))) \<subseteq>
     set (nm_getNodes (inProgress g)) \<union> set (nm_getNodes (index g))"
  proof (cases rule: settle_cases [where g = g and node = node and result = result and now = now])
    case (thrown e)
    then show ?thesis by simp
  next
    case looped
    then show ?thesis using loop_nodes [of ?g2 now] i p by auto
  qed
qed

lemma settle_events_nonterminal:
  "\<exists>es. events (fst (settle g node result now)) = events g @ es \<and> (\<forall>e \<in> set es. \<not> terminal e)"
proof (cases rule: settle_cases [where g = g and node = node and result = result and now = now])
  case (thrown e)
  then show ?thesis by simp
next
  case looped
  then show ?thesis by (simp add: loop_frame terminal_def)
qed

lemma run3f_eq:
  "run3f =
     \<lparr>roots = \<lparr>nm_index = [(''build.a.v1'', node_a)], nm_length = 1\<rparr>,
      index = TaskNodeMap_new, inProgress = TaskNodeMap_new,
      taskDependencyCache = [''deploy.b.v1'' \<mapsto> [''build.a''], ''build.a.v1'' \<mapsto> []],
      resultCache = \<lparr>cache = [(''build.a.v1'', setError result_a ''failed'' 3)], cache_length = 1\<rparr>,
      concurrencyLimit = 2,
      dependencies = (\<lambda>k. TaskNodeMap_new)
        (''deploy.b.v1'' := \<lparr>nm_index = [(''build.a.v1'', node_a)], nm_length = 1\<rparr>,
         ''build.a.v1'' := TaskNodeMap_new),
      events = [TaskPending 1 ''deploy.b.v1'' ''v1'', TaskGraphProcessing 2,
                TaskError (setError result_a ''failed'' 3), TaskGraphComplete 3],
      processing = [], clock = 3\<rparr>"
  unfolding run3f_def run2_eq by (simp add: run_inputs more_inputs run_defs settle_defs reject_defs)

lemma run3f_rejected:
  "\<exists>e. process_rejected 2 (tick run2 3) node_a result_a ''failed'' 3 = Some (run3f, e)"
  unfolding run3f_def
  by (rule orElse_fst) (simp add: run2_eq run_inputs more_inputs run_defs settle_defs reject_defs)

lemma ranked_run2: "ranked run2 rank_ab"
  by (simp add: ranked_def run2_eq nm_getNodes_def getDependencies_def rank_ab_def run_inputs
      TaskNode_new_def TaskNodeMap_new_def)

lemma dependant_run2: "transDependant run2 node_a node_b"
  by (rule transDependant.direct)
     (simp_all add: run2_eq nm_getNodes_def dependsOn_def getDependencies_def run_inputs
        TaskNode_new_def TaskNodeMap_new_def)

lemma dependant_run6: "transDependant run6 node_a node_b"
  by (rule transDependant.direct)
     (simp_all add: run6_eq nm_getNodes_def dependsOn_def getDependencies_def run_inputs
        TaskNode_new_def TaskNodeMap_new_def)




end
